theory Spec2Isabelle
  imports Main "HOL-Library.Sublist"
begin

section \<open>Data model\<close>

text \<open>
  The Prisma enums \<open>TaskPriority\<close> and \<open>TaskStatus\<close> and the rows of the tables the
  workload code reads and writes. Only the columns that code touches are kept
  (a task's description, project and due date, a member's role and the timestamps
  are never read by it).
\<close>

datatype TaskPriority = LOW | MEDIUM | HIGH

datatype TaskStatus = PENDING | IN_PROGRESS | DONE

record task =
  task_id :: string
  title :: string
  priority :: TaskPriority
  status :: TaskStatus
  assignedToId :: "string option"

record member_row =
  member_id :: string
  member_name :: string
  capacity :: int
  teamId :: string

text \<open>A member as returned with \<open>include: { tasks: ... }\<close>: the row and its task array.\<close>

record member = member_row +
  tasks :: "task list"

text \<open>A member as returned with \<open>include: { _count: { select: { tasks: ... } } }\<close>.\<close>

record member_count = member_row +
  count_tasks :: nat

record team_row =
  team_id :: string
  team_name :: string

record team = team_row +
  members :: "member list"

record activity_log =
  log_taskId :: string
  log_action :: string
  log_description :: string
  log_userId :: string

text \<open>
  The store: each table is the list of its rows, in the order \<open>findMany\<close> returns them.
  \<open>db_users\<close> holds the ids of the \<open>User\<close> rows (the target of the foreign key
  \<open>ActivityLog_userId_fkey\<close>).
\<close>

record db =
  db_users :: "string list"
  db_teams :: "team_row list"
  db_members :: "member_row list"
  db_tasks :: "task list"
  db_logs :: "activity_log list"

section \<open>Capacity evaluator (lib/team-utils)\<close>

text \<open>The relation filter \<open>tasks: { where: { status: { not: "DONE" } } }\<close> of a member.\<close>

definition open_tasks :: "db \<Rightarrow> string \<Rightarrow> task list" where
  "open_tasks d mid = filter (\<lambda>t. assignedToId t = Some mid \<and> status t \<noteq> DONE) (db_tasks d)"

definition getMemberActiveTaskCount :: "db \<Rightarrow> string \<Rightarrow> nat" where
  "getMemberActiveTaskCount d memberId =
     length (filter (\<lambda>t. assignedToId t = Some memberId \<and> status t \<noteq> DONE) (db_tasks d))"

definition with_count :: "db \<Rightarrow> member_row \<Rightarrow> member_count" where
  "with_count d m =
     \<lparr>member_id = member_id m, member_name = member_name m, capacity = capacity m,
      teamId = teamId m, count_tasks = length (open_tasks d (member_id m))\<rparr>"

text \<open>\<open>prisma.teamMember.findUnique({ where: { id }, include: { _count } })\<close>.\<close>

definition findUnique_member :: "db \<Rightarrow> string \<Rightarrow> member_count option" where
  "findUnique_member d memberId =
     map_option (with_count d) (find (\<lambda>m. member_id m = memberId) (db_members d))"

record over_capacity =
  oc_overCapacity :: bool
  oc_currentLoad :: nat
  oc_capacity :: int
  oc_member :: "member_count option"

definition isMemberOverCapacity :: "db \<Rightarrow> string \<Rightarrow> over_capacity" where
  "isMemberOverCapacity d memberId =
     (case findUnique_member d memberId of
        None \<Rightarrow> \<lparr>oc_overCapacity = False, oc_currentLoad = 0, oc_capacity = 0, oc_member = None\<rparr>
      | Some m \<Rightarrow>
          (let currentLoad = count_tasks m in
           \<lparr>oc_overCapacity = (int currentLoad \<ge> capacity m),
            oc_currentLoad = currentLoad,
            oc_capacity = capacity m,
            oc_member = Some m\<rparr>))"

text \<open>
  \<open>prisma.teamMember.findMany({ where: { teamId }, include: { _count } })\<close>, then the
  filter and the sort of \<open>getMembersWithCapacity\<close>. \<open>Array.prototype.sort\<close> is stable
  and the comparator is the difference of the counts, so it is the stable sort by count.
\<close>

definition findMany_members :: "db \<Rightarrow> string \<Rightarrow> member_count list" where
  "findMany_members d tid = map (with_count d) (filter (\<lambda>m. teamId m = tid) (db_members d))"

definition getMembersWithCapacity :: "db \<Rightarrow> string \<Rightarrow> member_count list" where
  "getMembersWithCapacity d tid =
     sort_key count_tasks
       (filter (\<lambda>member. int (count_tasks member) < capacity member) (findMany_members d tid))"

definition findBestMemberForTask :: "db \<Rightarrow> string \<Rightarrow> member_count option" where
  "findBestMemberForTask d tid =
     (let membersWithCapacity = getMembersWithCapacity d tid in
      if length membersWithCapacity = 0 then None
      else Some (membersWithCapacity ! 0))"

subsection \<open>Numbers inside template strings\<close>

definition digit_char :: "nat \<Rightarrow> char" where
  "digit_char n = ''0123456789'' ! n"

fun show_nat :: "nat \<Rightarrow> string" where
  "show_nat n = (if n < 10 then [digit_char n] else show_nat (n div 10) @ [digit_char (n mod 10)])"

declare show_nat.simps [simp del]

definition show_int :: "int \<Rightarrow> string" where
  "show_int i = (if i < 0 then CHR ''-'' # show_nat (nat (- i)) else show_nat (nat i))"

subsection \<open>validateTaskAssignment\<close>

text \<open>
  The three object literals the function returns, as one record whose absent
  properties are \<open>None\<close>.
\<close>

record validation =
  v_valid :: bool
  v_error :: "string option"
  v_warning :: "bool option"
  v_message :: "string option"
  v_currentLoad :: "nat option"
  v_capacity :: "int option"
  v_member :: "member_count option"

definition validateTaskAssignment :: "db \<Rightarrow> string \<Rightarrow> bool \<Rightarrow> validation" where
  "validateTaskAssignment d memberId force =
     (let r = isMemberOverCapacity d memberId in
      case oc_member r of
        None \<Rightarrow>
          \<lparr>v_valid = False, v_error = Some ''Member not found'', v_warning = None,
           v_message = None, v_currentLoad = None, v_capacity = None, v_member = None\<rparr>
      | Some member \<Rightarrow>
          if oc_overCapacity r \<and> \<not> force then
            \<lparr>v_valid = False, v_error = None, v_warning = Some True,
             v_message = Some (member_name member @ '' has '' @ show_nat (oc_currentLoad r)
                               @ '' tasks but capacity is '' @ show_int (oc_capacity r)
                               @ ''. Assign anyway?''),
             v_currentLoad = Some (oc_currentLoad r), v_capacity = Some (oc_capacity r),
             v_member = None\<rparr>
          else
            \<lparr>v_valid = True, v_error = None, v_warning = None, v_message = None,
             v_currentLoad = Some (oc_currentLoad r), v_capacity = Some (oc_capacity r),
             v_member = Some member\<rparr>)"

text \<open>The three variants, as a caller tells them apart (by \<open>valid\<close> and \<open>warning\<close>).\<close>

definition Rejected :: "validation \<Rightarrow> bool" where
  "Rejected v = (\<not> v_valid v \<and> v_error v \<noteq> None \<and> v_warning v = None)"

definition Warned :: "validation \<Rightarrow> bool" where
  "Warned v = (\<not> v_valid v \<and> v_warning v = Some True)"

definition Allowed :: "validation \<Rightarrow> bool" where
  "Allowed v = v_valid v"

section \<open>Assignment on task creation (app/api/tasks/route.ts)\<close>

text \<open>
  Lines 141 to 181 of the handler that creates a task, after the checks of the
  session, the title and the project: \<open>tid\<close> is \<open>project.teamId\<close>, and
  \<open>bodyAssignedToId\<close> (the \<open>assignedToId\<close> of the request body), \<open>autoAssign\<close> and
  \<open>forceAssign\<close> come from the request. The outcome is the warning response, the
  error response, or the \<open>assignedToId\<close> that \<open>prisma.task.create\<close> is called with.
\<close>

datatype assign_outcome =
    Warning409 "string option" "nat option" "int option"
  | Error400 "string option"
  | Created "string option"

text \<open>A string from the request that JavaScript takes as true: present and not empty.\<close>

definition truthy :: "string option \<Rightarrow> bool" where
  "truthy s = (case s of None \<Rightarrow> False | Some v \<Rightarrow> v \<noteq> [])"

definition tasks_POST_assign :: "db \<Rightarrow> string \<Rightarrow> string option \<Rightarrow> bool \<Rightarrow> bool \<Rightarrow> assign_outcome" where
  "tasks_POST_assign d tid bodyAssignedToId autoAssign forceAssign =
     (let finalAssignedToId =
            (if autoAssign \<and> \<not> truthy bodyAssignedToId then
               (case findBestMemberForTask d tid of
                  Some bestMember \<Rightarrow> Some (member_id bestMember)
                | None \<Rightarrow> bodyAssignedToId)
             else bodyAssignedToId);
          created = Created (if truthy finalAssignedToId then finalAssignedToId else None)
      in case finalAssignedToId of
           None \<Rightarrow> created
         | Some memberId \<Rightarrow>
             if memberId \<noteq> [] \<and> \<not> forceAssign then
               (let validation = validateTaskAssignment d memberId False in
                if \<not> v_valid validation \<and> v_warning validation = Some True then
                  Warning409 (v_message validation) (v_currentLoad validation)
                    (v_capacity validation)
                else if \<not> v_valid validation \<and> v_warning validation \<noteq> Some True then
                  Error400 (v_error validation)
                else created)
             else created)"

section \<open>Rebalancing sweep (app/api/tasks/reassign/route.ts)\<close>

record reassignment =
  r_taskId :: string
  r_taskTitle :: string
  r_fromMember :: string
  r_toMember :: string
  r_teamName :: string

text \<open>
  The two Prisma calls of the loop body: \<open>task.update({ where: { id }, data: {
  assignedToId } })\<close> and \<open>activityLog.create({ data })\<close>.
\<close>

datatype prisma_write = TaskUpdate string string | ActivityLogCreate activity_log

fun priorityOrder :: "TaskPriority \<Rightarrow> int" where
  "priorityOrder LOW = 0"
| "priorityOrder MEDIUM = 1"
| "priorityOrder HIGH = 2"

text \<open>
  \<open>xs.slice(0, end)\<close>: a negative \<open>end\<close> counts from the end of the array, and the
  result never reaches past either end.
\<close>

definition slice0 :: "'a list \<Rightarrow> int \<Rightarrow> 'a list" where
  "slice0 xs e = (if e < 0 then take (length xs - nat (- e)) xs else take (nat e) xs)"

text \<open>Lines 49 to 63, for one overloaded member. The sort is stable.\<close>

definition tasksToMove :: "member \<Rightarrow> task list" where
  "tasksToMove overloadedMember =
     sort_key (\<lambda>t. priorityOrder (priority t))
       (filter (\<lambda>t. priority t \<noteq> HIGH) (tasks overloadedMember))"

definition excessCount :: "member \<Rightarrow> int" where
  "excessCount overloadedMember =
     int (length (tasks overloadedMember)) - capacity overloadedMember"

definition tasksToReassign :: "member \<Rightarrow> task list" where
  "tasksToReassign overloadedMember =
     slice0 (tasksToMove overloadedMember) (excessCount overloadedMember)"

text \<open>
  The member objects of \<open>team.members\<close> are shared by \<open>overloadedMembers\<close> and
  \<open>availableMembers\<close>, and \<open>targetMember.tasks.push(task)\<close> mutates them. The model
  keeps the array \<open>team.members\<close> as the store and a reference to a member object
  as its position in that array; every read of \<open>member.tasks.length\<close> is a read of
  the store as it is at that moment.
\<close>

definition overloadedMembers :: "member list \<Rightarrow> nat list" where
  "overloadedMembers ms =
     filter (\<lambda>i. int (length (tasks (ms ! i))) > capacity (ms ! i)) [0..<length ms]"

definition availableMembers :: "member list \<Rightarrow> nat \<Rightarrow> nat list" where
  "availableMembers ms i =
     sort_key (\<lambda>j. length (tasks (ms ! j)))
       (filter (\<lambda>j. member_id (ms ! j) \<noteq> member_id (ms ! i)
                   \<and> int (length (tasks (ms ! j))) < capacity (ms ! j))
          [0..<length ms])"

text \<open>
  The state of the loops: the member array of the team being processed, the Prisma
  writes issued so far, in order, and the \<open>reassignments\<close> array. After the snapshot
  is read the loops never read the store again, so the writes are recorded here and
  run against the store by \<open>POST\<close>, which stops at the first one that fails.
\<close>

record sweep_state =
  mem :: "member list"
  writes :: "prisma_write list"
  reassignments :: "reassignment list"

text \<open>
  Lines 85 to 110: one move of task \<open>t\<close> from member \<open>i\<close> to member \<open>j\<close>: the
  two writes, the entry pushed on \<open>reassignments\<close>, and the push on the target's
  task array.
\<close>

definition move_writes :: "string \<Rightarrow> member \<Rightarrow> member \<Rightarrow> task \<Rightarrow> prisma_write list" where
  "move_writes userId overloadedMember targetMember t =
     [TaskUpdate (task_id t) (member_id targetMember),
      ActivityLogCreate
        \<lparr>log_taskId = task_id t,
         log_action = ''Reassigned from '' @ member_name overloadedMember @ '' to ''
            @ member_name targetMember,
         log_description = ''Task '' @ [CHR 0x22] @ title t @ [CHR 0x22]
            @ '' reassigned from '' @ member_name overloadedMember @ '' to ''
            @ member_name targetMember,
         log_userId = userId\<rparr>]"

definition move_record :: "string \<Rightarrow> member \<Rightarrow> member \<Rightarrow> task \<Rightarrow> reassignment" where
  "move_record teamName overloadedMember targetMember t =
     \<lparr>r_taskId = task_id t, r_taskTitle = title t,
      r_fromMember = member_name overloadedMember,
      r_toMember = member_name targetMember,
      r_teamName = teamName\<rparr>"

definition move_task :: "string \<Rightarrow> string \<Rightarrow> nat \<Rightarrow> nat \<Rightarrow> task \<Rightarrow> sweep_state \<Rightarrow> sweep_state" where
  "move_task userId teamName i j t st =
     (let overloadedMember = mem st ! i;
          targetMember = mem st ! j
      in \<lparr>mem = (mem st)[j := targetMember\<lparr>tasks := tasks targetMember @ [t]\<rparr>],
          writes = writes st @ move_writes userId overloadedMember targetMember t,
          reassignments = reassignments st @ [move_record teamName overloadedMember targetMember t]\<rparr>)"

text \<open>Line 79: the first available member whose running count is under its capacity.\<close>

definition find_target :: "member list \<Rightarrow> nat list \<Rightarrow> nat option" where
  "find_target ms avail =
     find (\<lambda>j. int (length (tasks (ms ! j))) < capacity (ms ! j)) avail"

text \<open>Lines 77 to 111: the loop over \<open>tasksToReassign\<close>, with its \<open>break\<close>.\<close>

fun reassign_loop :: "string \<Rightarrow> string \<Rightarrow> nat \<Rightarrow> nat list \<Rightarrow> task list \<Rightarrow> sweep_state \<Rightarrow> sweep_state" where
  "reassign_loop userId teamName i avail [] st = st"
| "reassign_loop userId teamName i avail (t # ts) st =
     (case find_target (mem st) avail of
        None \<Rightarrow> st
      | Some j \<Rightarrow> reassign_loop userId teamName i avail ts (move_task userId teamName i j t st))"

text \<open>Lines 48 to 112: the body of the loop over the overloaded members.\<close>

definition process_member :: "string \<Rightarrow> string \<Rightarrow> sweep_state \<Rightarrow> nat \<Rightarrow> sweep_state" where
  "process_member userId teamName st i =
     reassign_loop userId teamName i (availableMembers (mem st) i)
       (tasksToReassign (mem st ! i)) st"

text \<open>Lines 39 to 113: one team, with the early \<open>continue\<close>.\<close>

definition process_team :: "string \<Rightarrow> team \<Rightarrow> prisma_write list \<Rightarrow> reassignment list \<Rightarrow> sweep_state" where
  "process_team userId tm ws rs =
     (let st = \<lparr>mem = members tm, writes = ws, reassignments = rs\<rparr>;
          overloaded = overloadedMembers (members tm)
      in if length overloaded = 0 then st
         else foldl (process_member userId (team_name tm)) st overloaded)"

text \<open>
  The loop over the teams. It returns the teams as the loops leave them in memory,
  the writes and the reassignments.
\<close>

fun sweep :: "string \<Rightarrow> team list \<Rightarrow> prisma_write list \<Rightarrow> reassignment list
    \<Rightarrow> team list \<times> prisma_write list \<times> reassignment list" where
  "sweep userId [] ws rs = ([], ws, rs)"
| "sweep userId (tm # tms) ws rs =
     (let st = process_team userId tm ws rs;
          (tms', ws', rs') = sweep userId tms (writes st) (reassignments st)
      in (tm\<lparr>members := mem st\<rparr> # tms', ws', rs'))"

subsection \<open>The handler\<close>

text \<open>\<open>prisma.team.findMany\<close> with the members and their tasks that are not done.\<close>

definition with_tasks :: "db \<Rightarrow> member_row \<Rightarrow> member" where
  "with_tasks d m =
     \<lparr>member_id = member_id m, member_name = member_name m, capacity = capacity m,
      teamId = teamId m, tasks = open_tasks d (member_id m)\<rparr>"

definition findMany_teams :: "db \<Rightarrow> team list" where
  "findMany_teams d =
     map (\<lambda>t. \<lparr>team_id = team_id t, team_name = team_name t,
                members = map (with_tasks d) (filter (\<lambda>m. teamId m = team_id t) (db_members d))\<rparr>)
       (db_teams d)"

text \<open>
  A write against the store. \<open>update\<close> throws when no row has the id;
  \<open>create\<close> throws when a foreign key of the new row (\<open>ActivityLog_taskId_fkey\<close>,
  \<open>ActivityLog_userId_fkey\<close>) has no target. \<open>None\<close> is the exception. An updated
  row keeps its place in the list: the place of a row stands for its identity, and
  the order in which a later \<open>findMany\<close> without \<open>orderBy\<close> returns the rows after
  a write is not modelled.
\<close>

fun exec_write :: "prisma_write \<Rightarrow> db \<Rightarrow> db option" where
  "exec_write (TaskUpdate tid mid) d =
     (if tid \<in> task_id ` set (db_tasks d)
      then Some (d\<lparr>db_tasks :=
                    map (\<lambda>t. if task_id t = tid then t\<lparr>assignedToId := Some mid\<rparr> else t)
                      (db_tasks d)\<rparr>)
      else None)"
| "exec_write (ActivityLogCreate l) d =
     (if log_taskId l \<in> task_id ` set (db_tasks d) \<and> log_userId l \<in> set (db_users d)
      then Some (d\<lparr>db_logs := db_logs d @ [l]\<rparr>)
      else None)"

text \<open>The writes in order; the first exception ends them and leaves the earlier ones committed.\<close>

fun exec_writes :: "prisma_write list \<Rightarrow> db \<Rightarrow> bool \<times> db" where
  "exec_writes [] d = (True, d)"
| "exec_writes (w # ws) d =
     (case exec_write w d of
        None \<Rightarrow> (False, d)
      | Some d' \<Rightarrow> exec_writes ws d')"

datatype response =
    Unauthorized401
  | Failed500
  | Ok200 string "reassignment list"

text \<open>
  \<open>auth\<close> is the \<open>userId\<close> that Clerk returns (\<open>None\<close> for \<open>null\<close>; the empty
  string is falsy too). The result is the HTTP response and the store afterwards.
\<close>

definition POST :: "string option \<Rightarrow> db \<Rightarrow> response \<times> db" where
  "POST auth d =
     (case auth of
        None \<Rightarrow> (Unauthorized401, d)
      | Some userId \<Rightarrow>
          if userId = [] then (Unauthorized401, d)
          else
            (let teams = findMany_teams d;
                 (teams', ws, rs) = sweep userId teams [] [];
                 (ok, d') = exec_writes ws d
             in if ok
                then (Ok200 (''Successfully reassigned '' @ show_nat (length rs) @ '' task(s)'') rs, d')
                else (Failed500, d')))"

section \<open>The rebalancer as the specification words it\<close>

text \<open>
  Section 4.2 of the specification, step by step, for one team whose members are
  \<open>ms\<close>. A move is a source position, a task and a target position; the running
  open-task counts are a list of numbers, one for each member.

  Step 1: the overloaded members are those whose open-task count strictly exceeds
  their capacity.
\<close>

definition spec_overloaded :: "member list \<Rightarrow> nat list" where
  "spec_overloaded ms =
     filter (\<lambda>i. capacity (ms ! i) < int (length (tasks (ms ! i)))) [0..<length ms]"

text \<open>
  Steps 2 and 3: \<open>excess\<close> is the open-task count minus the capacity; the tasks to
  reassign are the first \<open>excess\<close> of the member's open tasks that are not HIGH,
  LOW before MEDIUM.
\<close>

definition spec_candidates :: "member \<Rightarrow> task list" where
  "spec_candidates m =
     take (nat (int (length (tasks m)) - capacity m))
       (filter (\<lambda>t. priority t = LOW) (tasks m) @ filter (\<lambda>t. priority t = MEDIUM) (tasks m))"

text \<open>
  Step 4: the available members, from open-task counts \<open>cs\<close>: every other member
  with a count under its capacity, least loaded first.
\<close>

definition spec_available :: "member list \<Rightarrow> nat list \<Rightarrow> nat \<Rightarrow> nat list" where
  "spec_available ms cs i =
     sort_key (\<lambda>j. cs ! j)
       (filter (\<lambda>j. member_id (ms ! j) \<noteq> member_id (ms ! i) \<and> int (cs ! j) < capacity (ms ! j))
          [0..<length ms])"

text \<open>
  Step 5: each task in order goes to the first available member whose running
  count is still under its capacity, and that count goes up by one; when there is
  no such member the remaining tasks stay.
\<close>

fun spec_assign :: "member list \<Rightarrow> nat \<Rightarrow> nat list \<Rightarrow> task list \<Rightarrow> nat list
    \<Rightarrow> (nat \<times> task \<times> nat) list \<times> nat list" where
  "spec_assign ms i avail [] cs = ([], cs)"
| "spec_assign ms i avail (t # ts) cs =
     (case find (\<lambda>j. int (cs ! j) < capacity (ms ! j)) avail of
        None \<Rightarrow> ([], cs)
      | Some j \<Rightarrow>
          (let (mvs, cs') = spec_assign ms i avail ts (cs[j := cs ! j + 1])
           in ((i, t, j) # mvs, cs')))"

text \<open>
  Step 6, and the moment at which step 4 is done. With \<open>per_member\<close> false the
  available members are computed once for the team, from the counts \<open>cs0\<close> at the
  start of its processing, as the specification says; with \<open>per_member\<close> true they
  are computed for each overloaded member, from the running counts.
\<close>

definition spec_member :: "bool \<Rightarrow> member list \<Rightarrow> nat list
    \<Rightarrow> (nat \<times> task \<times> nat) list \<times> nat list \<Rightarrow> nat \<Rightarrow> (nat \<times> task \<times> nat) list \<times> nat list" where
  "spec_member per_member ms cs0 acc i =
     (let cs = snd acc;
          avail = spec_available ms (if per_member then cs else cs0) i;
          (new, cs') = spec_assign ms i avail (spec_candidates (ms ! i)) cs
      in (fst acc @ new, cs'))"

definition spec_team :: "bool \<Rightarrow> member list \<Rightarrow> (nat \<times> task \<times> nat) list" where
  "spec_team per_member ms =
     (let cs0 = map (\<lambda>m. length (tasks m)) ms
      in fst (foldl (spec_member per_member ms cs0) ([], cs0) (spec_overloaded ms)))"

text \<open>The output of a sweep over all teams: the reassignment records and the writes.\<close>

definition spec_reassignments :: "bool \<Rightarrow> team list \<Rightarrow> reassignment list" where
  "spec_reassignments per_member tms =
     concat (map (\<lambda>tm. map (\<lambda>(i, t, j). move_record (team_name tm) (members tm ! i) (members tm ! j) t)
                          (spec_team per_member (members tm))) tms)"

definition spec_writes :: "bool \<Rightarrow> string \<Rightarrow> team list \<Rightarrow> prisma_write list" where
  "spec_writes per_member userId tms =
     concat (map (\<lambda>tm. concat (map (\<lambda>(i, t, j). move_writes userId (members tm ! i) (members tm ! j) t)
                                  (spec_team per_member (members tm)))) tms)"

section \<open>Predicates for the properties of the sweep\<close>

text \<open>
  How the member array of a team can differ between two moments of a sweep: the
  rows are the same, every task array has only been appended to, and an array that
  was appended to is not longer than the member's capacity.
\<close>

definition grows :: "member list \<Rightarrow> member list \<Rightarrow> bool" where
  "grows ms ms' =
     (length ms' = length ms \<and>
      (\<forall>k < length ms.
         member_id (ms' ! k) = member_id (ms ! k) \<and>
         member_name (ms' ! k) = member_name (ms ! k) \<and>
         capacity (ms' ! k) = capacity (ms ! k) \<and>
         teamId (ms' ! k) = teamId (ms ! k) \<and>
         prefix (tasks (ms ! k)) (tasks (ms' ! k)) \<and>
         (tasks (ms' ! k) \<noteq> tasks (ms ! k)
            \<longrightarrow> int (length (tasks (ms' ! k))) \<le> capacity (ms ! k))))"

text \<open>All the task objects of a snapshot.\<close>

definition snapshot_tasks :: "team list \<Rightarrow> task list" where
  "snapshot_tasks tms = concat (map tasks (concat (map members tms)))"

text \<open>
  A move the sweep can make in a team whose snapshot is \<open>ms\<close>: task \<open>t\<close>, one of the
  tasks chosen for the overloaded member at position \<open>i\<close>, goes to the member at
  position \<open>j\<close>, which is another member and is under capacity in the snapshot.
\<close>

definition team_move :: "member list \<Rightarrow> nat \<Rightarrow> task \<Rightarrow> nat \<Rightarrow> bool" where
  "team_move ms i t j =
     (i < length ms \<and> j < length ms
      \<and> capacity (ms ! i) < int (length (tasks (ms ! i)))
      \<and> int (length (tasks (ms ! j))) < capacity (ms ! j)
      \<and> member_id (ms ! j) \<noteq> member_id (ms ! i)
      \<and> t \<in> set (tasksToReassign (ms ! i)))"

text \<open>
  The invariant of the loop over the overloaded members of a team with snapshot
  \<open>ms\<close>: relative to a state \<open>st0\<close>, the store has only grown, and every write and
  every reassignment that is new comes from a \<open>team_move\<close>.
\<close>

definition team_inv :: "string \<Rightarrow> string \<Rightarrow> member list \<Rightarrow> sweep_state \<Rightarrow> sweep_state \<Rightarrow> bool" where
  "team_inv uid tn ms st0 st =
     (grows ms (mem st)
      \<and> (\<forall>w \<in> set (writes st). w \<in> set (writes st0)
            \<or> (\<exists>i t j. team_move ms i t j \<and> w \<in> set (move_writes uid (ms ! i) (ms ! j) t)))
      \<and> (\<forall>r \<in> set (reassignments st). r \<in> set (reassignments st0)
            \<or> (\<exists>i t j. team_move ms i t j \<and> r = move_record tn (ms ! i) (ms ! j) t)))"

text \<open>
  What links a state of the sweep's loops over a team (snapshot \<open>ms\<close>, writes
  \<open>ws0\<close> and reassignments \<open>rs0\<close> before the team) to the moves and running counts
  of the specification's algorithm.
\<close>

definition coupled :: "string \<Rightarrow> string \<Rightarrow> member list \<Rightarrow> prisma_write list \<Rightarrow> reassignment list
    \<Rightarrow> sweep_state \<Rightarrow> (nat \<times> task \<times> nat) list \<times> nat list \<Rightarrow> bool" where
  "coupled uid tn ms ws0 rs0 st acc =
     (grows ms (mem st)
      \<and> snd acc = map (\<lambda>m. length (tasks m)) (mem st)
      \<and> writes st = ws0 @ concat (map (\<lambda>(i, t, j). move_writes uid (ms ! i) (ms ! j) t) (fst acc))
      \<and> reassignments st = rs0 @ map (\<lambda>(i, t, j). move_record tn (ms ! i) (ms ! j) t) (fst acc))"

text \<open>
  The moves of a sweep in one team, in the order they are made: source position,
  task, target position. \<open>running_count ms mvs j\<close> is the open-task count of the
  member at position \<open>j\<close> after the moves \<open>mvs\<close> on the snapshot \<open>ms\<close>: its count in
  the snapshot plus one for every move that had it as target. \<open>received mvs j\<close>
  are the tasks those moves brought to it.
\<close>

definition running_count :: "member list \<Rightarrow> (nat \<times> task \<times> nat) list \<Rightarrow> nat \<Rightarrow> nat" where
  "running_count ms mvs j =
     length (tasks (ms ! j)) + length (filter (\<lambda>mv. snd (snd mv) = j) mvs)"

definition received :: "(nat \<times> task \<times> nat) list \<Rightarrow> nat \<Rightarrow> task list" where
  "received mvs j = map (\<lambda>mv. fst (snd mv)) (filter (\<lambda>mv. snd (snd mv) = j) mvs)"

text \<open>
  Every move of \<open>mvs\<close> is between members of the team, and its target's running
  count, after the moves made before it, is under the target's capacity.
\<close>

definition moves_under_capacity :: "member list \<Rightarrow> (nat \<times> task \<times> nat) list \<Rightarrow> bool" where
  "moves_under_capacity ms mvs =
     (\<forall>n < length mvs.
        fst (mvs ! n) < length ms \<and> snd (snd (mvs ! n)) < length ms
        \<and> int (running_count ms (take n mvs) (snd (snd (mvs ! n))))
             < capacity (ms ! snd (snd (mvs ! n))))"

text \<open>The writes and the reassignment entries of a list of moves, as \<open>move_task\<close> makes them.\<close>

definition trace_writes :: "string \<Rightarrow> member list \<Rightarrow> (nat \<times> task \<times> nat) list \<Rightarrow> prisma_write list" where
  "trace_writes uid ms mvs =
     concat (map (\<lambda>mv. move_writes uid (ms ! fst mv) (ms ! snd (snd mv)) (fst (snd mv))) mvs)"

definition trace_records :: "string \<Rightarrow> member list \<Rightarrow> (nat \<times> task \<times> nat) list \<Rightarrow> reassignment list" where
  "trace_records tn ms mvs =
     map (\<lambda>mv. move_record tn (ms ! fst mv) (ms ! snd (snd mv)) (fst (snd mv))) mvs"

text \<open>
  A state of the loops over a team with snapshot \<open>ms\<close>, and the moves \<open>mvs\<close> made
  since the writes were \<open>ws0\<close> and the reassignments \<open>rs0\<close>.
\<close>

definition traced :: "string \<Rightarrow> string \<Rightarrow> member list \<Rightarrow> prisma_write list \<Rightarrow> reassignment list
    \<Rightarrow> sweep_state \<Rightarrow> (nat \<times> task \<times> nat) list \<Rightarrow> bool" where
  "traced uid tn ms ws0 rs0 st mvs =
     (grows ms (mem st)
      \<and> (\<forall>j < length ms. tasks (mem st ! j) = tasks (ms ! j) @ received mvs j)
      \<and> writes st = ws0 @ trace_writes uid ms mvs
      \<and> reassignments st = rs0 @ trace_records tn ms mvs
      \<and> moves_under_capacity ms mvs)"

section \<open>Scenarios\<close>

definition mk_task :: "string \<Rightarrow> TaskPriority \<Rightarrow> TaskStatus \<Rightarrow> string \<Rightarrow> task" where
  "mk_task i p s m =
     \<lparr>task_id = i, title = ''Task '' @ i, priority = p, status = s, assignedToId = Some m\<rparr>"

text \<open>
  Scenario A: Ann (capacity 2) holds a HIGH, a MEDIUM and a LOW open task, Bob
  (capacity 2) holds none.
\<close>

definition scenarioA :: db where
  "scenarioA =
     \<lparr>db_users = [''u1''],
      db_teams = [\<lparr>team_id = ''T'', team_name = ''Core''\<rparr>],
      db_members =
        [\<lparr>member_id = ''m1'', member_name = ''Ann'', capacity = 2, teamId = ''T''\<rparr>,
         \<lparr>member_id = ''m2'', member_name = ''Bob'', capacity = 2, teamId = ''T''\<rparr>],
      db_tasks =
        [mk_task ''h'' HIGH PENDING ''m1'', mk_task ''m'' MEDIUM IN_PROGRESS ''m1'',
         mk_task ''l'' LOW PENDING ''m1''],
      db_logs = []\<rparr>"

text \<open>Scenario B: Ann (capacity 3) holds exactly three open tasks and a finished one.\<close>

definition scenarioB :: db where
  "scenarioB =
     \<lparr>db_users = [''u1''],
      db_teams = [\<lparr>team_id = ''T'', team_name = ''Core''\<rparr>],
      db_members =
        [\<lparr>member_id = ''m1'', member_name = ''Ann'', capacity = 3, teamId = ''T''\<rparr>,
         \<lparr>member_id = ''m2'', member_name = ''Bob'', capacity = 2, teamId = ''T''\<rparr>],
      db_tasks =
        [mk_task ''a'' LOW PENDING ''m1'', mk_task ''b'' MEDIUM IN_PROGRESS ''m1'',
         mk_task ''c'' LOW PENDING ''m1'', mk_task ''d'' LOW DONE ''m1''],
      db_logs = []\<rparr>"

definition scenarioA_members :: "member list" where
  "scenarioA_members =
     [\<lparr>member_id = ''m1'', member_name = ''Ann'', capacity = 2, teamId = ''T'',
       tasks = [mk_task ''h'' HIGH PENDING ''m1'', mk_task ''m'' MEDIUM IN_PROGRESS ''m1'',
                mk_task ''l'' LOW PENDING ''m1'']\<rparr>,
      \<lparr>member_id = ''m2'', member_name = ''Bob'', capacity = 2, teamId = ''T'', tasks = []\<rparr>]"

definition scenarioB_members :: "member list" where
  "scenarioB_members =
     [\<lparr>member_id = ''m1'', member_name = ''Ann'', capacity = 3, teamId = ''T'',
       tasks = [mk_task ''a'' LOW PENDING ''m1'', mk_task ''b'' MEDIUM IN_PROGRESS ''m1'',
                mk_task ''c'' LOW PENDING ''m1'']\<rparr>,
      \<lparr>member_id = ''m2'', member_name = ''Bob'', capacity = 2, teamId = ''T'', tasks = []\<rparr>]"

text \<open>
  Scenario D: Ann (capacity 3, three open tasks) and Bob (capacity 0) are the team;
  every member is at or over capacity.
\<close>

definition scenarioD :: db where
  "scenarioD =
     \<lparr>db_users = [''u1''],
      db_teams = [\<lparr>team_id = ''T'', team_name = ''Core''\<rparr>],
      db_members =
        [\<lparr>member_id = ''m1'', member_name = ''Ann'', capacity = 3, teamId = ''T''\<rparr>,
         \<lparr>member_id = ''m2'', member_name = ''Bob'', capacity = 0, teamId = ''T''\<rparr>],
      db_tasks =
        [mk_task ''a'' LOW PENDING ''m1'', mk_task ''b'' MEDIUM IN_PROGRESS ''m1'',
         mk_task ''c'' HIGH PENDING ''m1''],
      db_logs = []\<rparr>"

text \<open>
  Scenario E: two members over capacity, Ann and Bob (capacity 0, one LOW task each), and two
  with room, Cy and Di (capacity 2, no task).
\<close>

definition scenarioE :: db where
  "scenarioE =
     \<lparr>db_users = [''u1''],
      db_teams = [\<lparr>team_id = ''T'', team_name = ''Core''\<rparr>],
      db_members =
        [\<lparr>member_id = ''m1'', member_name = ''Ann'', capacity = 0, teamId = ''T''\<rparr>,
         \<lparr>member_id = ''m2'', member_name = ''Bob'', capacity = 0, teamId = ''T''\<rparr>,
         \<lparr>member_id = ''m3'', member_name = ''Cy'', capacity = 2, teamId = ''T''\<rparr>,
         \<lparr>member_id = ''m4'', member_name = ''Di'', capacity = 2, teamId = ''T''\<rparr>],
      db_tasks = [mk_task ''a'' LOW PENDING ''m1'', mk_task ''b'' LOW PENDING ''m2''],
      db_logs = []\<rparr>"

text \<open>
  Scenario F: Ann and Bob (capacity 0, one LOW task each) are over capacity, and
  Cy (capacity 1, no task) has room for one task.
\<close>

definition scenarioF_members :: "member list" where
  "scenarioF_members =
     [\<lparr>member_id = ''m1'', member_name = ''Ann'', capacity = 0, teamId = ''T'',
       tasks = [mk_task ''a'' LOW PENDING ''m1'']\<rparr>,
      \<lparr>member_id = ''m2'', member_name = ''Bob'', capacity = 0, teamId = ''T'',
       tasks = [mk_task ''b'' LOW PENDING ''m2'']\<rparr>,
      \<lparr>member_id = ''m3'', member_name = ''Cy'', capacity = 1, teamId = ''T'', tasks = []\<rparr>]"

section \<open>Properties of the capacity evaluator\<close>

lemma find_member_id: "find (\<lambda>m. member_id m = k) xs = Some M \<Longrightarrow> member_id M = k"
  by (auto simp: find_Some_iff)

lemma find_exists_iff: "(\<exists>M. find (\<lambda>m. f m = k) xs = Some M) = (k \<in> f ` set xs)"
proof -
  have "(find (\<lambda>m. f m = k) xs = None) = (k \<notin> f ` set xs)"
    by (auto simp: find_None_iff)
  then show ?thesis by auto
qed

lemma sublist_mid: "sublist b (a @ b @ c)"
  unfolding sublist_def by blast

lemma validate_found:
  assumes f: "find (\<lambda>m. member_id m = memberId) (db_members d) = Some M"
  shows "validateTaskAssignment d memberId force =
     (if capacity M \<le> int (getMemberActiveTaskCount d memberId) \<and> \<not> force then
        \<lparr>v_valid = False, v_error = None, v_warning = Some True,
         v_message = Some (member_name M @ '' has '' @ show_nat (getMemberActiveTaskCount d memberId)
                               @ '' tasks but capacity is '' @ show_int (capacity M)
                               @ ''. Assign anyway?''),
         v_currentLoad = Some (getMemberActiveTaskCount d memberId), v_capacity = Some (capacity M),
         v_member = None\<rparr>
      else
        \<lparr>v_valid = True, v_error = None, v_warning = None, v_message = None,
         v_currentLoad = Some (getMemberActiveTaskCount d memberId), v_capacity = Some (capacity M),
         v_member = Some (with_count d M)\<rparr>)"
proof -
  have id: "member_id M = memberId" using f by (rule find_member_id)
  show ?thesis
    using f id
    by (simp add: validateTaskAssignment_def isMemberOverCapacity_def findUnique_member_def
        with_count_def open_tasks_def getMemberActiveTaskCount_def Let_def)
qed

lemma validate_missing:
  assumes f: "find (\<lambda>m. member_id m = memberId) (db_members d) = None"
  shows "validateTaskAssignment d memberId force =
          \<lparr>v_valid = False, v_error = Some ''Member not found'', v_warning = None,
           v_message = None, v_currentLoad = None, v_capacity = None, v_member = None\<rparr>"
  using f
  by (simp add: validateTaskAssignment_def isMemberOverCapacity_def findUnique_member_def Let_def)

lemma scenarioB_find_m1:
  "find (\<lambda>m. member_id m = ''m1'') (db_members scenarioB)
     = Some \<lparr>member_id = ''m1'', member_name = ''Ann'', capacity = 3, teamId = ''T''\<rparr>"
  by (simp add: scenarioB_def)

lemma scenarioB_load_m1: "getMemberActiveTaskCount scenarioB ''m1'' = 3"
  by (simp add: scenarioB_def getMemberActiveTaskCount_def mk_task_def)

text \<open>
  C2. For a member \<open>M\<close> that exists, \<open>isMemberOverCapacity\<close> reports as current load
  the number of tasks assigned to \<open>M\<close> whose status is not DONE, and reports the
  member over capacity exactly when that load is at least \<open>M\<close>'s capacity; a load
  equal to the capacity is over capacity.
\<close>

theorem isMemberOverCapacity_inclusive:
  assumes "find (\<lambda>m. member_id m = memberId) (db_members d) = Some M"
  shows "oc_currentLoad (isMemberOverCapacity d memberId)
           = length (filter (\<lambda>t. assignedToId t = Some memberId \<and> status t \<noteq> DONE) (db_tasks d))
       \<and> oc_currentLoad (isMemberOverCapacity d memberId) = getMemberActiveTaskCount d memberId
       \<and> oc_capacity (isMemberOverCapacity d memberId) = capacity M
       \<and> oc_overCapacity (isMemberOverCapacity d memberId)
           = (int (oc_currentLoad (isMemberOverCapacity d memberId)) \<ge> capacity M)
       \<and> (int (oc_currentLoad (isMemberOverCapacity d memberId)) = capacity M
            \<longrightarrow> oc_overCapacity (isMemberOverCapacity d memberId))"
proof -
  from assms have "member_id M = memberId"
    by (rule find_member_id)
  with assms show ?thesis
    by (simp add: isMemberOverCapacity_def findUnique_member_def with_count_def open_tasks_def
        getMemberActiveTaskCount_def Let_def)
qed

theorem isMemberOverCapacity_inclusive_witness:
  "find (\<lambda>m. member_id m = ''m1'') (db_members scenarioB)
     = Some \<lparr>member_id = ''m1'', member_name = ''Ann'', capacity = 3, teamId = ''T''\<rparr>
   \<and> oc_currentLoad (isMemberOverCapacity scenarioB ''m1'') = 3
   \<and> oc_capacity (isMemberOverCapacity scenarioB ''m1'') = 3
   \<and> oc_overCapacity (isMemberOverCapacity scenarioB ''m1'')"
  using isMemberOverCapacity_inclusive [OF scenarioB_find_m1] scenarioB_find_m1 scenarioB_load_m1
  by simp

text \<open>
  C1. \<open>validateTaskAssignment\<close> answers with the rejection (not valid, an error
  reason, no warning) exactly when no member has the id; with the warning (not
  valid, warning set, a message that contains the member's name, its current load
  and its capacity) exactly when the member exists, its load is at least its
  capacity and \<open>force\<close> is false; and with the permission (valid, with the member,
  its load and its capacity) exactly when the member exists and is under capacity
  or \<open>force\<close> is true.
\<close>

theorem validateTaskAssignment_three_way:
  "(Rejected (validateTaskAssignment d memberId force)
      \<longleftrightarrow> memberId \<notin> member_id ` set (db_members d))
   \<and> (Warned (validateTaskAssignment d memberId force)
      \<longleftrightarrow> (\<exists>M. find (\<lambda>m. member_id m = memberId) (db_members d) = Some M
              \<and> int (getMemberActiveTaskCount d memberId) \<ge> capacity M \<and> \<not> force))
   \<and> (Allowed (validateTaskAssignment d memberId force)
      \<longleftrightarrow> (\<exists>M. find (\<lambda>m. member_id m = memberId) (db_members d) = Some M
              \<and> (\<not> int (getMemberActiveTaskCount d memberId) \<ge> capacity M \<or> force)))
   \<and> (Rejected (validateTaskAssignment d memberId force)
      \<longrightarrow> v_error (validateTaskAssignment d memberId force) = Some ''Member not found'')
   \<and> (\<forall>M. find (\<lambda>m. member_id m = memberId) (db_members d) = Some M
          \<and> Warned (validateTaskAssignment d memberId force)
      \<longrightarrow> (\<exists>msg. v_message (validateTaskAssignment d memberId force) = Some msg
             \<and> sublist (member_name M) msg
             \<and> sublist (show_nat (getMemberActiveTaskCount d memberId)) msg
             \<and> sublist (show_int (capacity M)) msg)
          \<and> v_currentLoad (validateTaskAssignment d memberId force)
               = Some (getMemberActiveTaskCount d memberId)
          \<and> v_capacity (validateTaskAssignment d memberId force) = Some (capacity M))
   \<and> (\<forall>M. find (\<lambda>m. member_id m = memberId) (db_members d) = Some M
          \<and> Allowed (validateTaskAssignment d memberId force)
      \<longrightarrow> v_member (validateTaskAssignment d memberId force) = Some (with_count d M)
          \<and> v_currentLoad (validateTaskAssignment d memberId force)
               = Some (getMemberActiveTaskCount d memberId)
          \<and> v_capacity (validateTaskAssignment d memberId force) = Some (capacity M))"
proof (cases "find (\<lambda>m. member_id m = memberId) (db_members d)")
  case None
  then have "memberId \<notin> member_id ` set (db_members d)"
    using find_exists_iff [of member_id memberId "db_members d"] by simp
  with None show ?thesis
    by (simp add: validate_missing Rejected_def Warned_def Allowed_def)
next
  case (Some M)
  let ?load = "show_nat (getMemberActiveTaskCount d memberId)"
  let ?msg = "member_name M @ '' has '' @ ?load @ '' tasks but capacity is ''
                @ show_int (capacity M) @ ''. Assign anyway?''"
  from Some have ex: "memberId \<in> member_id ` set (db_members d)"
    using find_exists_iff [of member_id memberId "db_members d"] by blast
  have s1: "sublist (member_name M) ?msg"
    using sublist_mid [of "member_name M" "[]"] by simp
  have s2: "sublist ?load ?msg"
    using sublist_mid [of ?load "member_name M @ '' has ''"] by simp
  have s3: "sublist (show_int (capacity M)) ?msg"
    using sublist_mid [of "show_int (capacity M)"
        "member_name M @ '' has '' @ ?load @ '' tasks but capacity is ''"] by simp
  show ?thesis
    using Some ex s1 s2 s3
    by (simp add: validate_found [OF Some] Rejected_def Warned_def Allowed_def)
qed

theorem validateTaskAssignment_three_way_witness:
  "Warned (validateTaskAssignment scenarioB ''m1'' False)
   \<and> v_currentLoad (validateTaskAssignment scenarioB ''m1'' False) = Some 3
   \<and> v_capacity (validateTaskAssignment scenarioB ''m1'' False) = Some 3
   \<and> Allowed (validateTaskAssignment scenarioB ''m1'' True)
   \<and> v_capacity (validateTaskAssignment scenarioB ''m1'' True) = Some 3
   \<and> Rejected (validateTaskAssignment scenarioB ''m9'' False)
   \<and> v_error (validateTaskAssignment scenarioB ''m9'' False) = Some ''Member not found''"
proof -
  have nobody: "''m9'' \<notin> member_id ` set (db_members scenarioB)"
    by (simp add: scenarioB_def)
  show ?thesis
    using validateTaskAssignment_three_way [of scenarioB "''m1''" False]
      validateTaskAssignment_three_way [of scenarioB "''m1''" True]
      validateTaskAssignment_three_way [of scenarioB "''m9''" False]
      scenarioB_find_m1 scenarioB_load_m1 nobody
    by simp
qed

section \<open>Properties of the sweep\<close>

subsection \<open>The store only grows, and only under capacity\<close>

lemma grows_refl: "grows ms ms"
  by (simp add: grows_def)

lemma grows_trans:
  assumes "grows a b" "grows b c"
  shows "grows a c"
  unfolding grows_def
proof (intro conjI allI impI)
  show "length c = length a" using assms by (simp add: grows_def)
next
  fix k assume k: "k < length a"
  then have kb: "k < length b" using assms by (simp add: grows_def)
  from assms k kb show "member_id (c ! k) = member_id (a ! k)" by (simp add: grows_def)
  from assms k kb show "member_name (c ! k) = member_name (a ! k)" by (simp add: grows_def)
  from assms k kb show "capacity (c ! k) = capacity (a ! k)" by (simp add: grows_def)
  from assms k kb show "teamId (c ! k) = teamId (a ! k)" by (simp add: grows_def)
  from assms k kb have p1: "prefix (tasks (a ! k)) (tasks (b ! k))"
    and p2: "prefix (tasks (b ! k)) (tasks (c ! k))" by (simp_all add: grows_def)
  then show "prefix (tasks (a ! k)) (tasks (c ! k))" by (rule prefix_order.trans)
  assume ne: "tasks (c ! k) \<noteq> tasks (a ! k)"
  show "int (length (tasks (c ! k))) \<le> capacity (a ! k)"
  proof (cases "tasks (c ! k) = tasks (b ! k)")
    case True
    with ne have "tasks (b ! k) \<noteq> tasks (a ! k)" by simp
    with assms k True show ?thesis by (simp add: grows_def)
  next
    case False
    with assms k kb show ?thesis by (simp add: grows_def)
  qed
qed

lemma grows_overloaded_same:
  assumes g: "grows ms ms'" and k: "k < length ms"
    and o: "int (length (tasks (ms ! k))) > capacity (ms ! k)"
  shows "ms' ! k = ms ! k"
proof -
  have p: "prefix (tasks (ms ! k)) (tasks (ms' ! k))" using g k by (simp add: grows_def)
  then have "length (tasks (ms ! k)) \<le> length (tasks (ms' ! k))" by (rule prefix_length_le)
  with o g k have "tasks (ms' ! k) = tasks (ms ! k)"
    by (fastforce simp: grows_def)
  moreover have "member_id (ms' ! k) = member_id (ms ! k)" "member_name (ms' ! k) = member_name (ms ! k)"
    "capacity (ms' ! k) = capacity (ms ! k)" "teamId (ms' ! k) = teamId (ms ! k)"
    using g k by (simp_all add: grows_def)
  ultimately show ?thesis by (simp add: member.equality)
qed

lemma grows_push:
  assumes j: "j < length ms" and u: "int (length (tasks (ms ! j))) < capacity (ms ! j)"
  shows "grows ms (ms[j := (ms ! j)\<lparr>tasks := tasks (ms ! j) @ [t]\<rparr>])"
  using assms by (auto simp: grows_def nth_list_update)

lemma find_target_Some:
  "find_target ms avail = Some j \<Longrightarrow> j \<in> set avail \<and> int (length (tasks (ms ! j))) < capacity (ms ! j)"
  by (auto simp: find_target_def find_Some_iff)

lemma mem_move_task:
  "mem (move_task uid tn i j t st) = (mem st)[j := (mem st ! j)\<lparr>tasks := tasks (mem st ! j) @ [t]\<rparr>]"
  by (simp add: move_task_def Let_def)

lemma reassign_loop_grows:
  assumes "set avail \<subseteq> {..<length (mem st)}"
  shows "grows (mem st) (mem (reassign_loop uid tn i avail ts st))"
  using assms
proof (induction ts arbitrary: st)
  case Nil
  show ?case by (simp add: grows_refl)
next
  case (Cons t ts)
  show ?case
  proof (cases "find_target (mem st) avail")
    case None
    then show ?thesis by (simp add: grows_refl)
  next
    case (Some j)
    from find_target_Some [OF Some] Cons.prems
    have j: "j < length (mem st)" and u: "int (length (tasks (mem st ! j))) < capacity (mem st ! j)"
      by auto
    let ?st = "move_task uid tn i j t st"
    have g1: "grows (mem st) (mem ?st)"
      unfolding mem_move_task using j u by (rule grows_push)
    have "set avail \<subseteq> {..<length (mem ?st)}" using Cons.prems by (simp add: mem_move_task)
    then have "grows (mem ?st) (mem (reassign_loop uid tn i avail ts ?st))" by (rule Cons.IH)
    with g1 have "grows (mem st) (mem (reassign_loop uid tn i avail ts ?st))" by (rule grows_trans)
    with Some show ?thesis by simp
  qed
qed

lemma availableMembers_set:
  "set (availableMembers ms i) =
     {j. j < length ms \<and> member_id (ms ! j) \<noteq> member_id (ms ! i) \<and> int (length (tasks (ms ! j))) < capacity (ms ! j)}"
  by (auto simp: availableMembers_def)

lemma process_member_grows: "grows (mem st) (mem (process_member uid tn st i))"
  unfolding process_member_def
  by (rule reassign_loop_grows) (auto simp: availableMembers_set)

lemma foldl_process_member_grows: "grows (mem st) (mem (foldl (process_member uid tn) st is))"
proof (induction "is" arbitrary: st)
  case Nil
  show ?case by (simp add: grows_refl)
next
  case (Cons i "is")
  have "grows (mem st) (mem (process_member uid tn st i))" by (rule process_member_grows)
  moreover have "grows (mem (process_member uid tn st i)) (mem (foldl (process_member uid tn) (process_member uid tn st i) is))"
    by (rule Cons.IH)
  ultimately show ?case by (simp add: grows_trans)
qed

lemma process_team_grows: "grows (members tm) (mem (process_team uid tm ws rs))"
  using foldl_process_member_grows [of "\<lparr>mem = members tm, writes = ws, reassignments = rs\<rparr>" uid "team_name tm" "overloadedMembers (members tm)"]
  by (simp add: process_team_def Let_def grows_refl)

lemma sweep_grows:
  "sweep uid tms ws rs = (tms', ws', rs') \<Longrightarrow>
   list_all2 (\<lambda>tm tm'. team_id tm' = team_id tm \<and> team_name tm' = team_name tm
                \<and> grows (members tm) (members tm')) tms tms'"
proof (induction tms arbitrary: ws rs tms' ws' rs')
  case Nil
  then show ?case by simp
next
  case (Cons tm tms)
  let ?st = "process_team uid tm ws rs"
  obtain a b c where r: "sweep uid tms (writes ?st) (reassignments ?st) = (a, b, c)"
    by (cases "sweep uid tms (writes ?st) (reassignments ?st)") auto
  with Cons.prems have t: "tms' = tm\<lparr>members := mem ?st\<rparr> # a"
    by (simp add: Let_def)
  from Cons.IH [OF r] process_team_grows [of tm uid ws rs] t
  show ?case by simp
qed

subsection \<open>The scenarios, evaluated\<close>

lemma scenarioA_teams:
  "findMany_teams scenarioA = [\<lparr>team_id = ''T'', team_name = ''Core'', members = scenarioA_members\<rparr>]"
  by (simp add: scenarioA_def scenarioA_members_def findMany_teams_def with_tasks_def
      open_tasks_def mk_task_def)

lemma scenarioB_teams:
  "findMany_teams scenarioB = [\<lparr>team_id = ''T'', team_name = ''Core'', members = scenarioB_members\<rparr>]"
  by (simp add: scenarioB_def scenarioB_members_def findMany_teams_def with_tasks_def
      open_tasks_def mk_task_def)

lemma scenarioA_sweep:
  "sweep ''u1'' [\<lparr>team_id = ''T'', team_name = ''Core'', members = scenarioA_members\<rparr>] [] [] =
     ([\<lparr>team_id = ''T'', team_name = ''Core'',
        members = scenarioA_members
          [1 := (scenarioA_members ! 1)\<lparr>tasks := [mk_task ''l'' LOW PENDING ''m1'']\<rparr>]\<rparr>],
      move_writes ''u1'' (scenarioA_members ! 0) (scenarioA_members ! 1)
        (mk_task ''l'' LOW PENDING ''m1''),
      [move_record ''Core'' (scenarioA_members ! 0) (scenarioA_members ! 1)
        (mk_task ''l'' LOW PENDING ''m1'')])"
  by (simp add: scenarioA_members_def mk_task_def process_team_def overloadedMembers_def
      process_member_def availableMembers_def tasksToReassign_def tasksToMove_def
      excessCount_def slice0_def find_target_def move_task_def move_record_def move_writes_def
      Let_def)

subsection \<open>No overload, no move\<close>

lemma no_overload_team:
  assumes "\<forall>m \<in> set (members tm). \<not> int (length (tasks m)) > capacity m"
  shows "process_team uid tm ws rs = \<lparr>mem = members tm, writes = ws, reassignments = rs\<rparr>"
proof -
  have "overloadedMembers (members tm) = []"
    using assms by (auto simp: overloadedMembers_def filter_empty_conv)
  then show ?thesis by (simp add: process_team_def)
qed

lemma no_overload_sweep:
  assumes "\<forall>tm \<in> set tms. \<forall>m \<in> set (members tm). \<not> int (length (tasks m)) > capacity m"
  shows "sweep uid tms ws rs = (tms, ws, rs)"
  using assms
  by (induction tms arbitrary: ws rs) (simp_all add: no_overload_team)

lemma findMany_teams_members:
  assumes "tm \<in> set (findMany_teams d)" "m \<in> set (members tm)"
  shows "\<exists>row \<in> set (db_members d). m = with_tasks d row"
  using assms by (auto simp: findMany_teams_def)

lemma show_nat_0: "show_nat 0 = ''0''"
  by (simp add: show_nat.simps digit_char_def)

text \<open>
  C7. When no member of any team holds more open tasks than its capacity, the
  sweep returns the teams as they were, issues no write and records no
  reassignment; the handler then answers with a count of zero and an empty list,
  and the store (so every task's assignee) is unchanged.
\<close>

theorem sweep_no_overload:
  "((\<forall>tm \<in> set tms. \<forall>m \<in> set (members tm). \<not> int (length (tasks m)) > capacity m)
      \<longrightarrow> sweep uid tms [] [] = (tms, [], []))
   \<and> ((\<forall>m \<in> set (db_members d). \<not> int (getMemberActiveTaskCount d (member_id m)) > capacity m)
        \<and> uid \<noteq> []
      \<longrightarrow> POST (Some uid) d = (Ok200 ''Successfully reassigned 0 task(s)'' [], d))"
proof (intro conjI impI)
  assume "\<forall>tm \<in> set tms. \<forall>m \<in> set (members tm). \<not> int (length (tasks m)) > capacity m"
  then show "sweep uid tms [] [] = (tms, [], [])" by (rule no_overload_sweep)
next
  assume a: "(\<forall>m \<in> set (db_members d). \<not> int (getMemberActiveTaskCount d (member_id m)) > capacity m)
        \<and> uid \<noteq> []"
  have "\<forall>tm \<in> set (findMany_teams d). \<forall>m \<in> set (members tm). \<not> int (length (tasks m)) > capacity m"
  proof (intro ballI)
    fix tm m assume "tm \<in> set (findMany_teams d)" "m \<in> set (members tm)"
    then obtain row where "row \<in> set (db_members d)" "m = with_tasks d row"
      using findMany_teams_members by blast
    with a show "\<not> int (length (tasks m)) > capacity m"
      by (auto simp: with_tasks_def open_tasks_def getMemberActiveTaskCount_def)
  qed
  then have "sweep uid (findMany_teams d) [] [] = (findMany_teams d, [], [])"
    by (rule no_overload_sweep)
  with a show "POST (Some uid) d = (Ok200 ''Successfully reassigned 0 task(s)'' [], d)"
    by (simp add: POST_def show_nat_0)
qed

theorem sweep_no_overload_witness:
  "sweep ''u1'' [\<lparr>team_id = ''T'', team_name = ''Core'', members = scenarioB_members\<rparr>] [] []
     = ([\<lparr>team_id = ''T'', team_name = ''Core'', members = scenarioB_members\<rparr>], [], [])
   \<and> POST (Some ''u1'') scenarioB = (Ok200 ''Successfully reassigned 0 task(s)'' [], scenarioB)"
proof -
  have h1: "\<forall>tm \<in> set [\<lparr>team_id = ''T'', team_name = ''Core'', members = scenarioB_members\<rparr>].
              \<forall>m \<in> set (members tm). \<not> int (length (tasks m)) > capacity m"
    by (simp add: scenarioB_members_def)
  have h2: "\<forall>m \<in> set (db_members scenarioB).
              \<not> int (getMemberActiveTaskCount scenarioB (member_id m)) > capacity m"
    by (simp add: scenarioB_def getMemberActiveTaskCount_def mk_task_def)
  have h3: "''u1'' \<noteq> []" by simp
  show ?thesis
    using sweep_no_overload
      [of "[\<lparr>team_id = ''T'', team_name = ''Core'', members = scenarioB_members\<rparr>]" "''u1''" scenarioB]
      h1 h2 h3
    by blast
qed

subsection \<open>What the loops write\<close>

lemma move_record_cong:
  "member_name a = member_name a' \<Longrightarrow> member_name b = member_name b'
   \<Longrightarrow> move_record tn a b t = move_record tn a' b' t"
  by (simp add: move_record_def)

lemma move_writes_cong:
  "member_name a = member_name a' \<Longrightarrow> member_name b = member_name b'
   \<Longrightarrow> member_id b = member_id b'
   \<Longrightarrow> move_writes uid a b t = move_writes uid a' b' t"
  by (simp add: move_writes_def)

lemma grows_move_record:
  "grows ms ms' \<Longrightarrow> i < length ms \<Longrightarrow> j < length ms
   \<Longrightarrow> move_record tn (ms' ! i) (ms' ! j) t = move_record tn (ms ! i) (ms ! j) t"
  by (rule move_record_cong) (simp_all add: grows_def)

lemma grows_move_writes:
  "grows ms ms' \<Longrightarrow> i < length ms \<Longrightarrow> j < length ms
   \<Longrightarrow> move_writes uid (ms' ! i) (ms' ! j) t = move_writes uid (ms ! i) (ms ! j) t"
  by (rule move_writes_cong) (simp_all add: grows_def)

lemma grows_under_capacity:
  assumes g: "grows ms ms'" and j: "j < length ms"
    and u: "int (length (tasks (ms' ! j))) < capacity (ms' ! j)"
  shows "int (length (tasks (ms ! j))) < capacity (ms ! j)"
proof -
  have "prefix (tasks (ms ! j)) (tasks (ms' ! j))" using g j by (simp add: grows_def)
  then have "length (tasks (ms ! j)) \<le> length (tasks (ms' ! j))" by (rule prefix_length_le)
  moreover have "capacity (ms' ! j) = capacity (ms ! j)" using g j by (simp add: grows_def)
  ultimately show ?thesis using u by simp
qed

text \<open>
  The loop over the chosen tasks moves a prefix of them, in order, each to an
  available member; \<open>js\<close> are the targets.
\<close>

lemma reassign_loop_trace:
  assumes "set avail \<subseteq> {..<length ms}" "i < length ms" "grows ms (mem st)"
  shows "\<exists>js. length js \<le> length ts \<and> set js \<subseteq> set avail
     \<and> (\<forall>j \<in> set js. int (length (tasks (ms ! j))) < capacity (ms ! j))
     \<and> writes (reassign_loop uid tn i avail ts st)
         = writes st @ concat (map (\<lambda>(t, j). move_writes uid (ms ! i) (ms ! j) t) (zip ts js))
     \<and> reassignments (reassign_loop uid tn i avail ts st)
         = reassignments st @ map (\<lambda>(t, j). move_record tn (ms ! i) (ms ! j) t) (zip ts js)"
  using assms
proof (induction ts arbitrary: st)
  case Nil
  show ?case by (rule exI [of _ "[]"]) simp
next
  case (Cons t ts)
  show ?case
  proof (cases "find_target (mem st) avail")
    case None
    show ?thesis by (rule exI [of _ "[]"]) (simp add: None)
  next
    case (Some j)
    have len: "length (mem st) = length ms" using Cons.prems(3) by (simp add: grows_def)
    from find_target_Some [OF Some] Cons.prems(1)
    have ja: "j \<in> set avail" and j: "j < length ms"
      and u: "int (length (tasks (mem st ! j))) < capacity (mem st ! j)"
      by auto
    let ?st = "move_task uid tn i j t st"
    have g1: "grows (mem st) (mem ?st)"
      unfolding mem_move_task using j u len by (simp add: grows_push)
    with Cons.prems(3) have g: "grows ms (mem ?st)" by (rule grows_trans)
    from Cons.IH [OF Cons.prems(1) Cons.prems(2) g]
    obtain js where js: "length js \<le> length ts" "set js \<subseteq> set avail"
      "\<forall>j \<in> set js. int (length (tasks (ms ! j))) < capacity (ms ! j)"
      "writes (reassign_loop uid tn i avail ts ?st)
         = writes ?st @ concat (map (\<lambda>(t, j). move_writes uid (ms ! i) (ms ! j) t) (zip ts js))"
      "reassignments (reassign_loop uid tn i avail ts ?st)
         = reassignments ?st @ map (\<lambda>(t, j). move_record tn (ms ! i) (ms ! j) t) (zip ts js)"
      by blast
    have w: "writes ?st = writes st @ move_writes uid (ms ! i) (ms ! j) t"
      using grows_move_writes [OF Cons.prems(3) Cons.prems(2) j]
      by (simp add: move_task_def Let_def)
    have r: "reassignments ?st = reassignments st @ [move_record tn (ms ! i) (ms ! j) t]"
      using grows_move_record [OF Cons.prems(3) Cons.prems(2) j]
      by (simp add: move_task_def Let_def)
    have u0: "int (length (tasks (ms ! j))) < capacity (ms ! j)"
      using Cons.prems(3) j u by (rule grows_under_capacity)
    show ?thesis
      by (rule exI [of _ "j # js"]) (use js w r u0 ja Some in simp)
  qed
qed

lemma zip_in_set_fst: "(t, j) \<in> set (zip ts js) \<Longrightarrow> t \<in> set ts \<and> j \<in> set js"
  by (auto dest: set_zip_leftD set_zip_rightD)

lemma process_member_inv:
  assumes inv: "team_inv uid tn ms st0 st" and i: "i < length ms"
    and o: "capacity (ms ! i) < int (length (tasks (ms ! i)))"
  shows "team_inv uid tn ms st0 (process_member uid tn st i)"
proof -
  from inv have g: "grows ms (mem st)" by (simp add: team_inv_def)
  then have len: "length (mem st) = length ms" by (simp add: grows_def)
  have same: "mem st ! i = ms ! i" using g i o by (rule grows_overloaded_same)
  let ?avail = "availableMembers (mem st) i"
  let ?ts = "tasksToReassign (ms ! i)"
  have sub: "set ?avail \<subseteq> {..<length ms}" using len by (auto simp: availableMembers_set)
  have pm: "process_member uid tn st i = reassign_loop uid tn i ?avail ?ts st"
    by (simp add: process_member_def same)
  from reassign_loop_trace [OF sub i g, of ?ts uid tn]
  obtain js where js: "set js \<subseteq> set ?avail"
    "\<forall>j \<in> set js. int (length (tasks (ms ! j))) < capacity (ms ! j)"
    "writes (process_member uid tn st i)
         = writes st @ concat (map (\<lambda>(t, j). move_writes uid (ms ! i) (ms ! j) t) (zip ?ts js))"
    "reassignments (process_member uid tn st i)
         = reassignments st @ map (\<lambda>(t, j). move_record tn (ms ! i) (ms ! j) t) (zip ?ts js)"
    unfolding pm by blast
  have mv: "team_move ms i t j" if "(t, j) \<in> set (zip ?ts js)" for t j
  proof -
    from that have t: "t \<in> set ?ts" and j: "j \<in> set js" by (auto dest: zip_in_set_fst)
    from j js(1) have ja: "j \<in> set ?avail" by auto
    then have "j < length ms" "member_id (mem st ! j) \<noteq> member_id (mem st ! i)"
      using len by (auto simp: availableMembers_set)
    moreover then have "member_id (ms ! j) \<noteq> member_id (ms ! i)"
      using g i by (simp add: grows_def)
    ultimately show ?thesis using i o t j js(2) by (simp add: team_move_def)
  qed
  have g': "grows ms (mem (process_member uid tn st i))"
    using g process_member_grows by (rule grows_trans)
  show ?thesis
    unfolding team_inv_def
  proof (intro conjI ballI)
    show "grows ms (mem (process_member uid tn st i))" by (rule g')
  next
    fix w assume "w \<in> set (writes (process_member uid tn st i))"
    then consider "w \<in> set (writes st)"
      | t j where "(t, j) \<in> set (zip ?ts js)" "w \<in> set (move_writes uid (ms ! i) (ms ! j) t)"
      unfolding js(3) by auto
    then show "w \<in> set (writes st0)
            \<or> (\<exists>i t j. team_move ms i t j \<and> w \<in> set (move_writes uid (ms ! i) (ms ! j) t))"
    proof cases
      case 1
      with inv show ?thesis by (simp add: team_inv_def)
    next
      case 2
      with mv show ?thesis by blast
    qed
  next
    fix r assume "r \<in> set (reassignments (process_member uid tn st i))"
    then consider "r \<in> set (reassignments st)"
      | t j where "(t, j) \<in> set (zip ?ts js)" "r = move_record tn (ms ! i) (ms ! j) t"
      unfolding js(4) by auto
    then show "r \<in> set (reassignments st0)
            \<or> (\<exists>i t j. team_move ms i t j \<and> r = move_record tn (ms ! i) (ms ! j) t)"
    proof cases
      case 1
      with inv show ?thesis by (simp add: team_inv_def)
    next
      case 2
      with mv show ?thesis by blast
    qed
  qed
qed

lemma foldl_process_member_inv:
  assumes "team_inv uid tn ms st0 st"
    and "\<forall>i \<in> set is. i < length ms \<and> capacity (ms ! i) < int (length (tasks (ms ! i)))"
  shows "team_inv uid tn ms st0 (foldl (process_member uid tn) st is)"
  using assms
proof (induction "is" arbitrary: st)
  case Nil
  then show ?case by simp
next
  case (Cons i "is")
  from Cons.prems have "team_inv uid tn ms st0 (process_member uid tn st i)"
    by (simp add: process_member_inv)
  with Cons.prems(2) show ?case by (simp add: Cons.IH)
qed

lemma team_inv_refl: "team_inv uid tn (mem st) st st"
  by (simp add: team_inv_def grows_refl)

lemma process_team_inv:
  "team_inv uid (team_name tm) (members tm)
     \<lparr>mem = members tm, writes = ws, reassignments = rs\<rparr> (process_team uid tm ws rs)"
proof -
  let ?st = "\<lparr>mem = members tm, writes = ws, reassignments = rs\<rparr>"
  have base: "team_inv uid (team_name tm) (members tm) ?st ?st"
    using team_inv_refl [of uid "team_name tm" ?st] by simp
  moreover have "\<forall>i \<in> set (overloadedMembers (members tm)).
      i < length (members tm) \<and> capacity (members tm ! i) < int (length (tasks (members tm ! i)))"
    by (simp add: overloadedMembers_def)
  ultimately have "team_inv uid (team_name tm) (members tm) ?st
      (foldl (process_member uid (team_name tm)) ?st (overloadedMembers (members tm)))"
    by (rule foldl_process_member_inv)
  with base show ?thesis
    by (simp add: process_team_def Let_def)
qed

text \<open>The whole sweep: every write and every reassignment comes from a move in one team.\<close>

lemma sweep_moves:
  assumes "sweep uid tms ws rs = (tms', ws', rs')"
  shows "(\<forall>w \<in> set ws'. w \<in> set ws
            \<or> (\<exists>tm \<in> set tms. \<exists>i t j. team_move (members tm) i t j
                  \<and> w \<in> set (move_writes uid (members tm ! i) (members tm ! j) t)))
       \<and> (\<forall>r \<in> set rs'. r \<in> set rs
            \<or> (\<exists>tm \<in> set tms. \<exists>i t j. team_move (members tm) i t j
                  \<and> r = move_record (team_name tm) (members tm ! i) (members tm ! j) t))"
  using assms
proof (induction tms arbitrary: ws rs tms' ws' rs')
  case Nil
  then show ?case by simp
next
  case (Cons tm tms)
  let ?st = "process_team uid tm ws rs"
  obtain a b c where r: "sweep uid tms (writes ?st) (reassignments ?st) = (a, b, c)"
    by (cases "sweep uid tms (writes ?st) (reassignments ?st)") auto
  with Cons.prems have e: "ws' = b" "rs' = c"
    by (simp_all add: Let_def)
  note ih = Cons.IH [OF r]
  note inv = process_team_inv [of uid tm ws rs, unfolded team_inv_def, simplified]
  show ?case
  proof (intro conjI ballI)
    fix w assume "w \<in> set ws'"
    with ih e have "w \<in> set (writes ?st) \<or> (\<exists>tm \<in> set tms. \<exists>i t j. team_move (members tm) i t j
                  \<and> w \<in> set (move_writes uid (members tm ! i) (members tm ! j) t))"
      by blast
    then show "w \<in> set ws
            \<or> (\<exists>tm \<in> set (tm # tms). \<exists>i t j. team_move (members tm) i t j
                  \<and> w \<in> set (move_writes uid (members tm ! i) (members tm ! j) t))"
      using inv by (metis list.set_intros(1) list.set_intros(2))
  next
    fix r assume "r \<in> set rs'"
    with ih e have "r \<in> set (reassignments ?st) \<or> (\<exists>tm \<in> set tms. \<exists>i t j. team_move (members tm) i t j
                  \<and> r = move_record (team_name tm) (members tm ! i) (members tm ! j) t)"
      by blast
    then show "r \<in> set rs
            \<or> (\<exists>tm \<in> set (tm # tms). \<exists>i t j. team_move (members tm) i t j
                  \<and> r = move_record (team_name tm) (members tm ! i) (members tm ! j) t)"
      using inv by (metis list.set_intros(1) list.set_intros(2))
  qed
qed

subsection \<open>The writes against the store\<close>

lemma exec_write_tasks:
  assumes "exec_write w d = Some d'"
  shows "list_all2 (\<lambda>t t'. t' = t \<or> (\<exists>mid. w = TaskUpdate (task_id t) mid
                                          \<and> t' = t\<lparr>assignedToId := Some mid\<rparr>))
           (db_tasks d) (db_tasks d')"
proof (cases w)
  case (TaskUpdate tid mid)
  with assms have "db_tasks d' =
      map (\<lambda>t. if task_id t = tid then t\<lparr>assignedToId := Some mid\<rparr> else t) (db_tasks d)"
    by (auto split: if_splits)
  then show ?thesis
    using TaskUpdate by (simp add: list_all2_conv_all_nth)
next
  case (ActivityLogCreate l)
  with assms have "db_tasks d' = db_tasks d" by (auto split: if_splits)
  then show ?thesis by (simp add: list_all2_conv_all_nth)
qed

lemma exec_writes_tasks:
  assumes "exec_writes ws d = (ok, d')"
  shows "list_all2 (\<lambda>t t'. t' = t \<or> (\<exists>mid. TaskUpdate (task_id t) mid \<in> set ws
                                          \<and> t' = t\<lparr>assignedToId := Some mid\<rparr>))
           (db_tasks d) (db_tasks d')"
  using assms
proof (induction ws arbitrary: d)
  case Nil
  then show ?case by (simp add: list_all2_conv_all_nth)
next
  case (Cons w ws)
  show ?case
  proof (cases "exec_write w d")
    case None
    with Cons.prems have "d' = d" by simp
    then show ?thesis by (simp add: list_all2_conv_all_nth)
  next
    case (Some d1)
    with Cons.prems have "exec_writes ws d1 = (ok, d')" by simp
    then have ih: "list_all2 (\<lambda>t t'. t' = t \<or> (\<exists>mid. TaskUpdate (task_id t) mid \<in> set ws
                                          \<and> t' = t\<lparr>assignedToId := Some mid\<rparr>))
           (db_tasks d1) (db_tasks d')" by (rule Cons.IH)
    note st = exec_write_tasks [OF Some]
    show ?thesis
    proof (rule list_all2_trans [OF _ st ih])
      fix a b c :: task
      assume 1: "b = a \<or> (\<exists>mid. w = TaskUpdate (task_id a) mid \<and> b = a\<lparr>assignedToId := Some mid\<rparr>)"
        and 2: "c = b \<or> (\<exists>mid. TaskUpdate (task_id b) mid \<in> set ws \<and> c = b\<lparr>assignedToId := Some mid\<rparr>)"
      from 1 have idb: "task_id b = task_id a" by auto
      from 1 2 idb show "c = a \<or> (\<exists>mid. TaskUpdate (task_id a) mid \<in> set (w # ws)
                                          \<and> c = a\<lparr>assignedToId := Some mid\<rparr>)"
        by auto
    qed
  qed
qed

text \<open>The store after the handler, whatever it answers.\<close>

lemma POST_tasks:
  assumes "POST auth d = (resp, d')"
  shows "\<exists>uid tms' ws rs.
           sweep uid (findMany_teams d) [] [] = (tms', ws, rs)
           \<and> (\<forall>msg rs'. resp = Ok200 msg rs' \<longrightarrow> rs' = rs)
           \<and> list_all2 (\<lambda>t t'. t' = t \<or> (\<exists>mid. TaskUpdate (task_id t) mid \<in> set ws
                                          \<and> t' = t\<lparr>assignedToId := Some mid\<rparr>))
                (db_tasks d) (db_tasks d')"
proof -
  have refl: "list_all2 (\<lambda>t t'. t' = t \<or> (\<exists>mid. TaskUpdate (task_id t) mid \<in> set ws
                                          \<and> t' = t\<lparr>assignedToId := Some mid\<rparr>))
                (db_tasks d) (db_tasks d)" for ws
    by (simp add: list_all2_conv_all_nth)
  show ?thesis
  proof (cases "\<exists>uid. auth = Some uid \<and> uid \<noteq> []")
    case False
    then have "POST auth d = (Unauthorized401, d)"
      by (cases auth) (auto simp: POST_def)
    with assms have e: "resp = Unauthorized401" "d' = d" by simp_all
    obtain a b c where "sweep [] (findMany_teams d) [] [] = (a, b, c)"
      by (cases "sweep [] (findMany_teams d) [] []") auto
    with e refl show ?thesis by auto
  next
    case True
    then obtain uid where u: "auth = Some uid" "uid \<noteq> []" by blast
    obtain a ws rs where s: "sweep uid (findMany_teams d) [] [] = (a, ws, rs)"
      by (cases "sweep uid (findMany_teams d) [] []") auto
    obtain ok d1 where x: "exec_writes ws d = (ok, d1)"
      by (cases "exec_writes ws d") auto
    from assms u s x have "d' = d1" "\<forall>msg rs'. resp = Ok200 msg rs' \<longrightarrow> rs' = rs"
      by (auto simp: POST_def split: if_splits)
    with exec_writes_tasks [OF x] s show ?thesis by blast
  qed
qed

lemma set_tasksToReassign:
  "set (tasksToReassign m) \<subseteq> {t \<in> set (tasks m). priority t \<noteq> HIGH}"
proof -
  have "set (slice0 xs e) \<subseteq> set xs" for xs :: "task list" and e
    by (auto simp: slice0_def dest: in_set_takeD)
  then have "set (tasksToReassign m) \<subseteq> set (tasksToMove m)"
    by (simp add: tasksToReassign_def)
  then show ?thesis by (auto simp: tasksToMove_def)
qed

lemma team_move_task:
  "team_move ms i t j \<Longrightarrow> t \<in> set (tasks (ms ! i)) \<and> priority t \<noteq> HIGH"
  using set_tasksToReassign [of "ms ! i"] by (auto simp: team_move_def)

lemma findMany_teams_nth:
  assumes "tm \<in> set (findMany_teams d)" "i < length (members tm)"
  shows "\<exists>row \<in> set (db_members d). members tm ! i = with_tasks d row"
  using assms findMany_teams_members [of tm d "members tm ! i"] by simp

lemma with_tasks_simps:
  "member_id (with_tasks d row) = member_id row"
  "member_name (with_tasks d row) = member_name row"
  "capacity (with_tasks d row) = capacity row"
  "tasks (with_tasks d row) = open_tasks d (member_id row)"
  by (simp_all add: with_tasks_def)

lemma open_tasks_set:
  "t \<in> set (open_tasks d mid) \<longleftrightarrow> t \<in> set (db_tasks d) \<and> assignedToId t = Some mid \<and> status t \<noteq> DONE"
  by (auto simp: open_tasks_def)

lemma distinct_task_id:
  "distinct (map task_id xs) \<Longrightarrow> a \<in> set xs \<Longrightarrow> b \<in> set xs \<Longrightarrow> task_id a = task_id b \<Longrightarrow> a = b"
  by (simp add: distinct_map inj_on_def)

lemma move_writes_TaskUpdate:
  "TaskUpdate tid mid \<in> set (move_writes uid a b t) \<longleftrightarrow> tid = task_id t \<and> mid = member_id b"
  by (auto simp: move_writes_def)

text \<open>
  Every row of the task table whose assignee a sweep over the store's own
  snapshot changes is an open, not HIGH task of a member that the snapshot shows
  strictly over capacity, and its new assignee is a member of that team that the
  snapshot shows under capacity.
\<close>

lemma POST_changed_row:
  assumes p: "POST auth d = (resp, d')" and dist: "distinct (map task_id (db_tasks d))"
    and n: "n < length (db_tasks d)" and ch: "db_tasks d' ! n \<noteq> db_tasks d ! n"
  shows "\<exists>src tgt. src \<in> set (db_members d) \<and> tgt \<in> set (db_members d)
           \<and> capacity src < int (length (open_tasks d (member_id src)))
           \<and> int (length (open_tasks d (member_id tgt))) < capacity tgt
           \<and> db_tasks d ! n \<in> set (open_tasks d (member_id src))
           \<and> priority (db_tasks d ! n) \<noteq> HIGH
           \<and> member_id tgt \<noteq> member_id src
           \<and> db_tasks d' ! n = (db_tasks d ! n)\<lparr>assignedToId := Some (member_id tgt)\<rparr>"
proof -
  let ?t = "db_tasks d ! n"
  from POST_tasks [OF p] obtain uid tms' ws rs where
    s: "sweep uid (findMany_teams d) [] [] = (tms', ws, rs)"
    and l: "list_all2 (\<lambda>t t'. t' = t \<or> (\<exists>mid. TaskUpdate (task_id t) mid \<in> set ws
                                          \<and> t' = t\<lparr>assignedToId := Some mid\<rparr>))
                (db_tasks d) (db_tasks d')"
    by blast
  from l n ch obtain mid where w: "TaskUpdate (task_id ?t) mid \<in> set ws"
    and new: "db_tasks d' ! n = ?t\<lparr>assignedToId := Some mid\<rparr>"
    by (auto simp: list_all2_conv_all_nth)
  with sweep_moves [OF s] obtain tm i t j where
    tm: "tm \<in> set (findMany_teams d)" and mv: "team_move (members tm) i t j"
    and w': "TaskUpdate (task_id ?t) mid \<in> set (move_writes uid (members tm ! i) (members tm ! j) t)"
    by auto
  from w' have id: "task_id t = task_id ?t" and mid: "mid = member_id (members tm ! j)"
    by (simp_all add: move_writes_TaskUpdate)
  from mv have i: "i < length (members tm)" and j: "j < length (members tm)"
    by (simp_all add: team_move_def)
  from findMany_teams_nth [OF tm i] obtain src where
    src: "src \<in> set (db_members d)" "members tm ! i = with_tasks d src" by blast
  from findMany_teams_nth [OF tm j] obtain tgt where
    tgt: "tgt \<in> set (db_members d)" "members tm ! j = with_tasks d tgt" by blast
  from team_move_task [OF mv] src have t: "t \<in> set (open_tasks d (member_id src))" "priority t \<noteq> HIGH"
    by (simp_all add: with_tasks_simps)
  then have t1: "t \<in> set (db_tasks d)" by (simp add: open_tasks_set)
  have t2: "?t \<in> set (db_tasks d)" using n by simp
  from dist t1 t2 id have "t = ?t" by (rule distinct_task_id)
  with t mv src tgt new mid show ?thesis
    by (auto simp: team_move_def with_tasks_simps)
qed

lemma move_record_simps:
  "r_taskId (move_record tn a b t) = task_id t"
  "r_taskTitle (move_record tn a b t) = title t"
  "r_fromMember (move_record tn a b t) = member_name a"
  "r_toMember (move_record tn a b t) = member_name b"
  "r_teamName (move_record tn a b t) = tn"
  by (simp_all add: move_record_def)

lemma POST_reassignment:
  assumes p: "POST auth d = (Ok200 msg rs, d')" and r: "r \<in> set rs"
  shows "\<exists>src tgt t. src \<in> set (db_members d) \<and> tgt \<in> set (db_members d)
           \<and> capacity src < int (length (open_tasks d (member_id src)))
           \<and> int (length (open_tasks d (member_id tgt))) < capacity tgt
           \<and> t \<in> set (open_tasks d (member_id src)) \<and> priority t \<noteq> HIGH
           \<and> r_taskId r = task_id t \<and> r_taskTitle r = title t
           \<and> r_fromMember r = member_name src \<and> r_toMember r = member_name tgt"
proof -
  from POST_tasks [OF p] obtain uid tms' ws where
    s: "sweep uid (findMany_teams d) [] [] = (tms', ws, rs)"
    by blast
  with sweep_moves [OF s] r obtain tm i t j where
    tm: "tm \<in> set (findMany_teams d)" and mv: "team_move (members tm) i t j"
    and r': "r = move_record (team_name tm) (members tm ! i) (members tm ! j) t"
    by auto
  from mv have i: "i < length (members tm)" and j: "j < length (members tm)"
    by (simp_all add: team_move_def)
  from findMany_teams_nth [OF tm i] obtain src where
    src: "src \<in> set (db_members d)" "members tm ! i = with_tasks d src" by blast
  from findMany_teams_nth [OF tm j] obtain tgt where
    tgt: "tgt \<in> set (db_members d)" "members tm ! j = with_tasks d tgt" by blast
  from team_move_task [OF mv] src have t: "t \<in> set (open_tasks d (member_id src))" "priority t \<noteq> HIGH"
    by (simp_all add: with_tasks_simps)
  show ?thesis
    using src tgt t mv r'
    by (auto simp: team_move_def with_tasks_simps move_record_simps)
qed

lemma POST_tasks_length: "POST auth d = (resp, d') \<Longrightarrow> length (db_tasks d') = length (db_tasks d)"
  using POST_tasks [of auth d resp d'] by (auto dest: list_all2_lengthD)

lemma snapshot_tasks_mem:
  "tm \<in> set tms \<Longrightarrow> i < length (members tm) \<Longrightarrow> t \<in> set (tasks (members tm ! i))
   \<Longrightarrow> t \<in> set (snapshot_tasks tms)"
  by (auto simp: snapshot_tasks_def intro!: bexI [of _ tm] bexI [of _ "members tm ! i"])

text \<open>
  C4. For every snapshot, each entry of the reassignment list and each task update
  the sweep issues is for a task of the snapshot whose priority is not HIGH; so,
  task ids being unique, no HIGH task of the snapshot is in the list or is
  updated. In the store, whatever the handler answers, the row of a HIGH task is
  after the sweep what it was before, and no entry of the answer names it.
\<close>

theorem sweep_never_moves_HIGH:
  "(\<forall>tms' ws rs. sweep uid tms [] [] = (tms', ws, rs) \<longrightarrow>
       (\<forall>r \<in> set rs. \<exists>t \<in> set (snapshot_tasks tms).
            priority t \<noteq> HIGH \<and> r_taskId r = task_id t \<and> r_taskTitle r = title t)
       \<and> (\<forall>tid mid. TaskUpdate tid mid \<in> set ws \<longrightarrow>
            (\<exists>t \<in> set (snapshot_tasks tms). priority t \<noteq> HIGH \<and> tid = task_id t))
       \<and> (distinct (map task_id (snapshot_tasks tms)) \<longrightarrow>
            (\<forall>t \<in> set (snapshot_tasks tms). priority t = HIGH \<longrightarrow>
               task_id t \<notin> r_taskId ` set rs
               \<and> (\<forall>mid. TaskUpdate (task_id t) mid \<notin> set ws))))
   \<and> (\<forall>resp d'. POST auth d = (resp, d') \<and> distinct (map task_id (db_tasks d)) \<longrightarrow>
         length (db_tasks d') = length (db_tasks d)
         \<and> (\<forall>n < length (db_tasks d). priority (db_tasks d ! n) = HIGH \<longrightarrow>
               db_tasks d' ! n = db_tasks d ! n
               \<and> (\<forall>msg rs. resp = Ok200 msg rs \<longrightarrow> task_id (db_tasks d ! n) \<notin> r_taskId ` set rs)))"
proof (intro conjI allI impI)
  fix tms' ws rs assume s: "sweep uid tms [] [] = (tms', ws, rs)"
  note mv = sweep_moves [OF s]
  show a: "\<forall>r \<in> set rs. \<exists>t \<in> set (snapshot_tasks tms).
            priority t \<noteq> HIGH \<and> r_taskId r = task_id t \<and> r_taskTitle r = title t"
  proof
    fix r assume "r \<in> set rs"
    with mv obtain tm i t j where tm: "tm \<in> set tms" and m: "team_move (members tm) i t j"
      and r: "r = move_record (team_name tm) (members tm ! i) (members tm ! j) t"
      by auto
    from m have "i < length (members tm)" by (simp add: team_move_def)
    with tm team_move_task [OF m] have "t \<in> set (snapshot_tasks tms)" "priority t \<noteq> HIGH"
      by (simp_all add: snapshot_tasks_mem)
    with r show "\<exists>t \<in> set (snapshot_tasks tms).
            priority t \<noteq> HIGH \<and> r_taskId r = task_id t \<and> r_taskTitle r = title t"
      by (auto simp: move_record_simps)
  qed
  show b: "\<exists>t \<in> set (snapshot_tasks tms). priority t \<noteq> HIGH \<and> tid = task_id t"
    if "TaskUpdate tid mid \<in> set ws" for tid mid
  proof -
    from that mv obtain tm i t j where tm: "tm \<in> set tms" and m: "team_move (members tm) i t j"
      and w: "TaskUpdate tid mid \<in> set (move_writes uid (members tm ! i) (members tm ! j) t)"
      by auto
    from m have "i < length (members tm)" by (simp add: team_move_def)
    with tm team_move_task [OF m] have "t \<in> set (snapshot_tasks tms)" "priority t \<noteq> HIGH"
      by (simp_all add: snapshot_tasks_mem)
    with w show ?thesis by (auto simp: move_writes_TaskUpdate)
  qed
  assume dist: "distinct (map task_id (snapshot_tasks tms))"
  show "\<forall>t \<in> set (snapshot_tasks tms). priority t = HIGH \<longrightarrow>
               task_id t \<notin> r_taskId ` set rs
               \<and> (\<forall>mid. TaskUpdate (task_id t) mid \<notin> set ws)"
  proof (intro ballI impI conjI allI notI)
    fix t assume t: "t \<in> set (snapshot_tasks tms)" "priority t = HIGH"
    {
      assume "task_id t \<in> r_taskId ` set rs"
      then obtain r where "r \<in> set rs" "r_taskId r = task_id t" by auto
      with a obtain t' where t': "t' \<in> set (snapshot_tasks tms)" "priority t' \<noteq> HIGH"
        "task_id t' = task_id t" by force
      from dist t'(1) t(1) t'(3) have "t' = t" by (rule distinct_task_id)
      with t t' show False by simp
    }
    {
      fix mid assume "TaskUpdate (task_id t) mid \<in> set ws"
      with b obtain t' where t': "t' \<in> set (snapshot_tasks tms)" "priority t' \<noteq> HIGH"
        "task_id t' = task_id t" by force
      from dist t'(1) t(1) t'(3) have "t' = t" by (rule distinct_task_id)
      with t t' show False by simp
    }
  qed
next
  fix resp d' assume a: "POST auth d = (resp, d') \<and> distinct (map task_id (db_tasks d))"
  then have p: "POST auth d = (resp, d')" and dist: "distinct (map task_id (db_tasks d))"
    by simp_all
  from p show "length (db_tasks d') = length (db_tasks d)" by (rule POST_tasks_length)
  fix n assume n: "n < length (db_tasks d)" and h: "priority (db_tasks d ! n) = HIGH"
  show "db_tasks d' ! n = db_tasks d ! n"
    using POST_changed_row [OF p dist n] h by blast
  fix msg rs assume ok: "resp = Ok200 msg rs"
  show "task_id (db_tasks d ! n) \<notin> r_taskId ` set rs"
  proof
    assume "task_id (db_tasks d ! n) \<in> r_taskId ` set rs"
    then obtain r where r: "r \<in> set rs" "r_taskId r = task_id (db_tasks d ! n)" by auto
    from p ok have p': "POST auth d = (Ok200 msg rs, d')" by simp
    from POST_reassignment [OF p' r(1)] obtain src :: member_row and t where
      t: "t \<in> set (open_tasks d (member_id src))" "priority t \<noteq> HIGH" "r_taskId r = task_id t"
      by blast
    then have t1: "t \<in> set (db_tasks d)" by (simp add: open_tasks_set)
    have t2: "db_tasks d ! n \<in> set (db_tasks d)" using n by simp
    from t(3) r(2) have "task_id t = task_id (db_tasks d ! n)" by simp
    with dist t1 t2 have "t = db_tasks d ! n" by (rule distinct_task_id)
    with t h show False by simp
  qed
qed

lemma scenarioA_POST:
  "POST (Some ''u1'') scenarioA =
     (Ok200 ''Successfully reassigned 1 task(s)''
        [\<lparr>r_taskId = ''l'', r_taskTitle = ''Task l'', r_fromMember = ''Ann'',
          r_toMember = ''Bob'', r_teamName = ''Core''\<rparr>],
      scenarioA
        \<lparr>db_tasks := [mk_task ''h'' HIGH PENDING ''m1'', mk_task ''m'' MEDIUM IN_PROGRESS ''m1'',
                      mk_task ''l'' LOW PENDING ''m2''],
         db_logs := [\<lparr>log_taskId = ''l'', log_action = ''Reassigned from Ann to Bob'',
                      log_description = ''Task '' @ [CHR 0x22] @ ''Task l'' @ [CHR 0x22]
                         @ '' reassigned from Ann to Bob'',
                      log_userId = ''u1''\<rparr>]\<rparr>)"
  by code_simp

text \<open>
  When the session's user id is not the id of a \<open>User\<close> row, the first
  \<open>activityLog.create\<close> fails: the handler answers 500, and the task update issued
  before it stays in the store.
\<close>

lemma scenarioA_POST_unknown_user:
  "POST (Some ''user_2x'') scenarioA =
     (Failed500,
      scenarioA
        \<lparr>db_tasks := [mk_task ''h'' HIGH PENDING ''m1'', mk_task ''m'' MEDIUM IN_PROGRESS ''m1'',
                      mk_task ''l'' LOW PENDING ''m2'']\<rparr>)"
  by code_simp

theorem sweep_never_moves_HIGH_witness:
  "distinct (map task_id (db_tasks scenarioA))
   \<and> priority (db_tasks scenarioA ! 0) = HIGH
   \<and> db_tasks (snd (POST (Some ''u1'') scenarioA)) ! 0 = db_tasks scenarioA ! 0
   \<and> task_id (db_tasks scenarioA ! 0) \<notin> r_taskId ` set
        [\<lparr>r_taskId = ''l'', r_taskTitle = ''Task l'', r_fromMember = ''Ann'',
          r_toMember = ''Bob'', r_teamName = ''Core''\<rparr>]"
proof -
  have d: "distinct (map task_id (db_tasks scenarioA))"
    by (simp add: scenarioA_def mk_task_def)
  have h: "priority (db_tasks scenarioA ! 0) = HIGH" "0 < length (db_tasks scenarioA)"
    by (simp_all add: scenarioA_def mk_task_def)
  obtain resp d' where p: "POST (Some ''u1'') scenarioA = (resp, d')"
    by (cases "POST (Some ''u1'') scenarioA") auto
  then have r: "resp = Ok200 ''Successfully reassigned 1 task(s)''
        [\<lparr>r_taskId = ''l'', r_taskTitle = ''Task l'', r_fromMember = ''Ann'',
          r_toMember = ''Bob'', r_teamName = ''Core''\<rparr>]"
    by (simp add: scenarioA_POST)
  from sweep_never_moves_HIGH [of "''u1''" "[]" "Some ''u1''" scenarioA] p d h r
  have "db_tasks d' ! 0 = db_tasks scenarioA ! 0
     \<and> task_id (db_tasks scenarioA ! 0) \<notin> r_taskId ` set
        [\<lparr>r_taskId = ''l'', r_taskTitle = ''Task l'', r_fromMember = ''Ann'',
          r_toMember = ''Bob'', r_teamName = ''Core''\<rparr>]"
    by blast
  with p d h show ?thesis by simp
qed

subsection \<open>Members at or over capacity\<close>

lemma sweep_nth_grows:
  assumes "sweep uid tms ws rs = (tms', ws', rs')" "n < length tms"
  shows "grows (members (tms ! n)) (members (tms' ! n))"
  using sweep_grows [OF assms(1)] assms(2) by (simp add: list_all2_conv_all_nth)

lemma sweep_length: "sweep uid tms ws rs = (tms', ws', rs') \<Longrightarrow> length tms' = length tms"
  using sweep_grows [of uid tms ws rs tms' ws' rs'] by (simp add: list_all2_lengthD)



lemma distinct_member_id:
  "distinct (map member_id xs) \<Longrightarrow> a \<in> set xs \<Longrightarrow> b \<in> set xs \<Longrightarrow> member_id a = member_id b \<Longrightarrow> a = b"
  by (simp add: distinct_map inj_on_def)

lemma open_tasks_count: "length (open_tasks d mid) = getMemberActiveTaskCount d mid"
  by (simp add: open_tasks_def getMemberActiveTaskCount_def)

text \<open>
  C10. Through a sweep no task array is ever shortened. A member that the
  snapshot shows strictly over capacity is in memory at the end what it was at
  the start, and in no store the sweep can reach is it the target that the
  under-capacity test selects; every task update and every reassignment entry
  names as target a member that the snapshot shows under capacity. In the store
  (unique task and member ids), a task assigned after the sweep to a member that
  was strictly over capacity was assigned to it before.
\<close>

theorem overloaded_member_never_receives:
  "(\<forall>tms' ws' rs'. sweep uid tms ws rs = (tms', ws', rs') \<longrightarrow>
      length tms' = length tms
      \<and> (\<forall>n < length tms.
            length (members (tms' ! n)) = length (members (tms ! n))
            \<and> (\<forall>k < length (members (tms ! n)).
                  prefix (tasks (members (tms ! n) ! k)) (tasks (members (tms' ! n) ! k))
                  \<and> (capacity (members (tms ! n) ! k) < int (length (tasks (members (tms ! n) ! k)))
                       \<longrightarrow> members (tms' ! n) ! k = members (tms ! n) ! k
                         \<and> (\<forall>ms avail. grows (members (tms ! n)) ms
                               \<longrightarrow> find_target ms avail \<noteq> Some k))))
      \<and> (\<forall>tid mid. TaskUpdate tid mid \<in> set ws' \<longrightarrow> TaskUpdate tid mid \<in> set ws
            \<or> (\<exists>tm \<in> set tms. \<exists>j < length (members tm). mid = member_id (members tm ! j)
                  \<and> int (length (tasks (members tm ! j))) < capacity (members tm ! j)))
      \<and> (\<forall>r \<in> set rs'. r \<in> set rs
            \<or> (\<exists>tm \<in> set tms. \<exists>j < length (members tm).
                  r_toMember r = member_name (members tm ! j) \<and> r_teamName r = team_name tm
                  \<and> int (length (tasks (members tm ! j))) < capacity (members tm ! j))))
   \<and> (\<forall>resp d' M n. POST auth d = (resp, d')
         \<and> distinct (map task_id (db_tasks d)) \<and> distinct (map member_id (db_members d))
         \<and> M \<in> set (db_members d)
         \<and> capacity M < int (getMemberActiveTaskCount d (member_id M))
         \<and> n < length (db_tasks d)
         \<and> assignedToId (db_tasks d' ! n) = Some (member_id M)
       \<longrightarrow> assignedToId (db_tasks d ! n) = Some (member_id M))"
proof (intro conjI allI impI)
  fix tms' ws' rs' assume s: "sweep uid tms ws rs = (tms', ws', rs')"
  show "length tms' = length tms" using s by (rule sweep_length)
  note mv = sweep_moves [OF s]
  show "TaskUpdate tid mid \<in> set ws
            \<or> (\<exists>tm \<in> set tms. \<exists>j < length (members tm). mid = member_id (members tm ! j)
                  \<and> int (length (tasks (members tm ! j))) < capacity (members tm ! j))"
    if w: "TaskUpdate tid mid \<in> set ws'" for tid mid
  proof (cases "TaskUpdate tid mid \<in> set ws")
    case True
    then show ?thesis by simp
  next
    case False
    with w mv obtain tm i t j where tm: "tm \<in> set tms" and m: "team_move (members tm) i t j"
      and w': "TaskUpdate tid mid \<in> set (move_writes uid (members tm ! i) (members tm ! j) t)"
      by blast
    then show ?thesis
      by (auto simp: team_move_def move_writes_TaskUpdate)
  qed
  show "\<forall>r \<in> set rs'. r \<in> set rs
            \<or> (\<exists>tm \<in> set tms. \<exists>j < length (members tm).
                  r_toMember r = member_name (members tm ! j) \<and> r_teamName r = team_name tm
                  \<and> int (length (tasks (members tm ! j))) < capacity (members tm ! j))"
  proof
    fix r assume r: "r \<in> set rs'"
    show "r \<in> set rs
            \<or> (\<exists>tm \<in> set tms. \<exists>j < length (members tm).
                  r_toMember r = member_name (members tm ! j) \<and> r_teamName r = team_name tm
                  \<and> int (length (tasks (members tm ! j))) < capacity (members tm ! j))"
    proof (cases "r \<in> set rs")
      case True
      then show ?thesis by simp
    next
      case False
      with r mv obtain tm i t j where tm: "tm \<in> set tms" and m: "team_move (members tm) i t j"
        and r': "r = move_record (team_name tm) (members tm ! i) (members tm ! j) t"
        by blast
      then show ?thesis
        by (auto simp: team_move_def move_record_simps)
    qed
  qed
  fix n assume n: "n < length tms"
  note g = sweep_nth_grows [OF s n]
  show "length (members (tms' ! n)) = length (members (tms ! n))"
    using g by (simp add: grows_def)
  fix k assume k: "k < length (members (tms ! n))"
  show "prefix (tasks (members (tms ! n) ! k)) (tasks (members (tms' ! n) ! k))"
    using g k by (simp add: grows_def)
  assume o: "capacity (members (tms ! n) ! k) < int (length (tasks (members (tms ! n) ! k)))"
  show "members (tms' ! n) ! k = members (tms ! n) ! k"
    using g k o by (rule grows_overloaded_same)
  fix ms avail assume g': "grows (members (tms ! n)) ms"
  have "ms ! k = members (tms ! n) ! k" using g' k o by (rule grows_overloaded_same)
  with o have "\<not> int (length (tasks (ms ! k))) < capacity (ms ! k)" by simp
  then show "find_target ms avail \<noteq> Some k"
    using find_target_Some [of ms avail k] by blast
next
  fix resp d' M n
  assume a: "POST auth d = (resp, d')
         \<and> distinct (map task_id (db_tasks d)) \<and> distinct (map member_id (db_members d))
         \<and> M \<in> set (db_members d)
         \<and> capacity M < int (getMemberActiveTaskCount d (member_id M))
         \<and> n < length (db_tasks d)
         \<and> assignedToId (db_tasks d' ! n) = Some (member_id M)"
  show "assignedToId (db_tasks d ! n) = Some (member_id M)"
  proof (cases "db_tasks d' ! n = db_tasks d ! n")
    case True
    with a show ?thesis by simp
  next
    case False
    from a have p: "POST auth d = (resp, d')" and dt: "distinct (map task_id (db_tasks d))"
      and n: "n < length (db_tasks d)" by simp_all
    from POST_changed_row [OF p dt n False] obtain tgt :: member_row where
      tgt: "tgt \<in> set (db_members d)"
      "int (length (open_tasks d (member_id tgt))) < capacity tgt"
      "db_tasks d' ! n = (db_tasks d ! n)\<lparr>assignedToId := Some (member_id tgt)\<rparr>"
      by blast
    with a have e: "member_id tgt = member_id M" by simp
    from a have dm: "distinct (map member_id (db_members d))" and M: "M \<in> set (db_members d)"
      by simp_all
    from dm tgt(1) M e have "tgt = M" by (rule distinct_member_id)
    with tgt(2) a show ?thesis by (simp add: open_tasks_count)
  qed
qed

theorem overloaded_member_never_receives_witness:
  "capacity (scenarioA_members ! 0) < int (length (tasks (scenarioA_members ! 0)))
   \<and> (scenarioA_members
          [1 := (scenarioA_members ! 1)\<lparr>tasks := [mk_task ''l'' LOW PENDING ''m1'']\<rparr>]) ! 0
       = scenarioA_members ! 0
   \<and> find_target scenarioA_members [0, 1] \<noteq> Some 0"
proof -
  let ?tm = "\<lparr>team_id = ''T'', team_name = ''Core'', members = scenarioA_members\<rparr>"
  have o: "capacity (scenarioA_members ! 0) < int (length (tasks (scenarioA_members ! 0)))"
    by (simp add: scenarioA_members_def)
  have l: "(0::nat) < length [?tm]" "(0::nat) < length (members ([?tm] ! 0))"
    by (simp_all add: scenarioA_members_def)
  have g: "grows (members ([?tm] ! 0)) scenarioA_members"
    by (simp add: grows_refl)
  note T = overloaded_member_never_receives [of "''u1''" "[?tm]" "[]" "[]" None scenarioA,
      THEN conjunct1, rule_format, OF scenarioA_sweep, THEN conjunct2, THEN conjunct1,
      rule_format, OF l(1), THEN conjunct2, rule_format, OF l(2), THEN conjunct2, rule_format]
  from T o have a: "(scenarioA_members
          [1 := (scenarioA_members ! 1)\<lparr>tasks := [mk_task ''l'' LOW PENDING ''m1'']\<rparr>]) ! 0
       = scenarioA_members ! 0" by simp
  from T o g have b: "find_target scenarioA_members [0, 1] \<noteq> Some 0" by simp
  from o a b show ?thesis by simp
qed



subsection \<open>The tasks chosen for an overloaded member\<close>

lemma insort_LOW:
  "priority x = LOW \<Longrightarrow> insort_key (\<lambda>t. priorityOrder (priority t)) x ys = x # ys"
proof (rule insort_is_Cons, rule ballI)
  fix y assume "priority x = LOW"
  then show "priorityOrder (priority x) \<le> priorityOrder (priority y)"
    by (cases "priority y") simp_all
qed

lemma insort_MEDIUM:
  assumes "priority x = MEDIUM" "\<forall>y \<in> set L. priority y = LOW" "\<forall>y \<in> set M. priority y = MEDIUM"
  shows "insort_key (\<lambda>t. priorityOrder (priority t)) x (L @ M) = L @ x # M"
  using assms
proof (induction L)
  case Nil
  then show ?case by (simp add: insort_is_Cons)
next
  case (Cons a L)
  then show ?case by simp
qed

lemma tasksToMove_LOW_MEDIUM:
  "tasksToMove m = filter (\<lambda>t. priority t = LOW) (tasks m) @ filter (\<lambda>t. priority t = MEDIUM) (tasks m)"
proof -
  have "sort_key (\<lambda>t. priorityOrder (priority t)) (filter (\<lambda>t. priority t \<noteq> HIGH) ts)
        = filter (\<lambda>t. priority t = LOW) ts @ filter (\<lambda>t. priority t = MEDIUM) ts" for ts :: "task list"
  proof (induction ts)
    case Nil
    show ?case by simp
  next
    case (Cons x ts)
    show ?case
    proof (cases "priority x")
      case LOW
      with Cons show ?thesis by (simp add: insort_LOW)
    next
      case MEDIUM
      with Cons show ?thesis by (simp add: insort_MEDIUM)
    next
      case HIGH
      with Cons show ?thesis by simp
    qed
  qed
  then show ?thesis by (simp add: tasksToMove_def)
qed

lemma tasksToReassign_overloaded:
  assumes "capacity m < int (length (tasks m))"
  shows "tasksToReassign m =
     take (nat (int (length (tasks m)) - capacity m))
       (filter (\<lambda>t. priority t = LOW) (tasks m) @ filter (\<lambda>t. priority t = MEDIUM) (tasks m))"
  using assms by (simp add: tasksToReassign_def excessCount_def slice0_def tasksToMove_LOW_MEDIUM)

lemma process_member_prefix:
  assumes i: "i < length (mem st)"
  shows "\<exists>js. length js \<le> length (tasksToReassign (mem st ! i))
     \<and> set js \<subseteq> set (availableMembers (mem st) i)
     \<and> writes (process_member uid tn st i)
         = writes st @ concat (map (\<lambda>(t, j). move_writes uid (mem st ! i) (mem st ! j) t)
                                (zip (tasksToReassign (mem st ! i)) js))
     \<and> reassignments (process_member uid tn st i)
         = reassignments st @ map (\<lambda>(t, j). move_record tn (mem st ! i) (mem st ! j) t)
                                (zip (tasksToReassign (mem st ! i)) js)"
proof -
  have sub: "set (availableMembers (mem st) i) \<subseteq> {..<length (mem st)}"
    by (auto simp: availableMembers_set)
  from reassign_loop_trace [OF sub i grows_refl, of "tasksToReassign (mem st ! i)" uid tn]
  show ?thesis unfolding process_member_def by blast
qed

text \<open>
  Scenario A for any two members: the first (capacity 2) holds three open tasks,
  one LOW, one MEDIUM and so one HIGH; the second (capacity 2) holds none.
\<close>

lemma scenarioA_general:
  assumes ms: "members tm = [m1, m2]" and c: "capacity m1 = 2" "capacity m2 = 2"
    and t2: "tasks m2 = []" and t1: "length (tasks m1) = 3"
    and lo: "filter (\<lambda>t. priority t = LOW) (tasks m1) = [tlow]"
    and me: "filter (\<lambda>t. priority t = MEDIUM) (tasks m1) = [tmed]"
    and id: "member_id m2 \<noteq> member_id m1"
  shows "sweep uid [tm] [] [] =
           ([tm\<lparr>members := [m1, m2\<lparr>tasks := [tlow]\<rparr>]\<rparr>],
            move_writes uid m1 m2 tlow, [move_record (team_name tm) m1 m2 tlow])"
proof -
  have o: "capacity m1 < int (length (tasks m1))" using c t1 by simp
  have r: "tasksToReassign m1 = [tlow]"
    using tasksToReassign_overloaded [OF o] c t1 lo me by simp
  have ov: "overloadedMembers [m1, m2] = [0]"
    using c t1 t2 by (simp add: overloadedMembers_def)
  have av: "availableMembers [m1, m2] 0 = [1]"
    using c t1 t2 id by (simp add: availableMembers_def)
  show ?thesis
    using ms c t1 t2
    by (simp add: process_team_def ov process_member_def av r find_target_def move_task_def Let_def)
qed

text \<open>
  C5. For a member strictly over capacity, the tasks chosen for reassignment are
  the first \<open>excess\<close> (open-task count minus capacity) of its LOW tasks followed
  by its MEDIUM tasks, each group in the order of the task array; when there are
  fewer than \<open>excess\<close> such tasks, they are all of them. The tasks the sweep moves
  for that member are a prefix of the chosen ones, in that order. In scenario A
  (capacity 2 with a LOW, a MEDIUM and a HIGH task; a teammate of capacity 2 with
  none) the sweep makes one move, of the LOW task to the teammate.
\<close>

theorem sweep_chooses_lowest_excess:
  "(capacity m < int (length (tasks m)) \<longrightarrow>
      tasksToReassign m =
        take (nat (int (length (tasks m)) - capacity m))
          (filter (\<lambda>t. priority t = LOW) (tasks m) @ filter (\<lambda>t. priority t = MEDIUM) (tasks m))
      \<and> (int (length (filter (\<lambda>t. priority t \<noteq> HIGH) (tasks m))) < int (length (tasks m)) - capacity m
           \<longrightarrow> tasksToReassign m =
                 filter (\<lambda>t. priority t = LOW) (tasks m) @ filter (\<lambda>t. priority t = MEDIUM) (tasks m)))
   \<and> (i < length (mem st) \<longrightarrow>
        (\<exists>js. length js \<le> length (tasksToReassign (mem st ! i))
           \<and> set js \<subseteq> set (availableMembers (mem st) i)
           \<and> reassignments (process_member uid tn st i)
               = reassignments st @ map (\<lambda>(t, j). move_record tn (mem st ! i) (mem st ! j) t)
                                      (zip (tasksToReassign (mem st ! i)) js)
           \<and> writes (process_member uid tn st i)
               = writes st @ concat (map (\<lambda>(t, j). move_writes uid (mem st ! i) (mem st ! j) t)
                                      (zip (tasksToReassign (mem st ! i)) js))))
   \<and> (members tm = [m1, m2] \<and> capacity m1 = 2 \<and> capacity m2 = 2 \<and> tasks m2 = []
        \<and> length (tasks m1) = 3
        \<and> filter (\<lambda>t. priority t = LOW) (tasks m1) = [tlow]
        \<and> filter (\<lambda>t. priority t = MEDIUM) (tasks m1) = [tmed]
        \<and> member_id m2 \<noteq> member_id m1
      \<longrightarrow> sweep uid [tm] [] [] =
           ([tm\<lparr>members := [m1, m2\<lparr>tasks := [tlow]\<rparr>]\<rparr>],
            move_writes uid m1 m2 tlow, [move_record (team_name tm) m1 m2 tlow]))
   \<and> POST (Some ''u1'') scenarioA =
     (Ok200 ''Successfully reassigned 1 task(s)''
        [\<lparr>r_taskId = ''l'', r_taskTitle = ''Task l'', r_fromMember = ''Ann'',
          r_toMember = ''Bob'', r_teamName = ''Core''\<rparr>],
      scenarioA
        \<lparr>db_tasks := [mk_task ''h'' HIGH PENDING ''m1'', mk_task ''m'' MEDIUM IN_PROGRESS ''m1'',
                      mk_task ''l'' LOW PENDING ''m2''],
         db_logs := [\<lparr>log_taskId = ''l'', log_action = ''Reassigned from Ann to Bob'',
                      log_description = ''Task '' @ [CHR 0x22] @ ''Task l'' @ [CHR 0x22]
                         @ '' reassigned from Ann to Bob'',
                      log_userId = ''u1''\<rparr>]\<rparr>)"
proof (intro conjI impI)
  assume o: "capacity m < int (length (tasks m))"
  show e: "tasksToReassign m =
        take (nat (int (length (tasks m)) - capacity m))
          (filter (\<lambda>t. priority t = LOW) (tasks m) @ filter (\<lambda>t. priority t = MEDIUM) (tasks m))"
    using o by (rule tasksToReassign_overloaded)
  assume few: "int (length (filter (\<lambda>t. priority t \<noteq> HIGH) (tasks m))) < int (length (tasks m)) - capacity m"
  have "length (filter (\<lambda>t. priority t = LOW) (tasks m) @ filter (\<lambda>t. priority t = MEDIUM) (tasks m))
        = length (filter (\<lambda>t. priority t \<noteq> HIGH) (tasks m))"
    using tasksToMove_LOW_MEDIUM [of m] by (simp add: tasksToMove_def del: length_append)
       (metis length_sort)
  with few e show "tasksToReassign m =
                 filter (\<lambda>t. priority t = LOW) (tasks m) @ filter (\<lambda>t. priority t = MEDIUM) (tasks m)"
    by simp
next
  assume "i < length (mem st)"
  from process_member_prefix [OF this, of uid tn]
  show "\<exists>js. length js \<le> length (tasksToReassign (mem st ! i))
           \<and> set js \<subseteq> set (availableMembers (mem st) i)
           \<and> reassignments (process_member uid tn st i)
               = reassignments st @ map (\<lambda>(t, j). move_record tn (mem st ! i) (mem st ! j) t)
                                      (zip (tasksToReassign (mem st ! i)) js)
           \<and> writes (process_member uid tn st i)
               = writes st @ concat (map (\<lambda>(t, j). move_writes uid (mem st ! i) (mem st ! j) t)
                                      (zip (tasksToReassign (mem st ! i)) js))"
    by blast
next
  assume "members tm = [m1, m2] \<and> capacity m1 = 2 \<and> capacity m2 = 2 \<and> tasks m2 = []
        \<and> length (tasks m1) = 3
        \<and> filter (\<lambda>t. priority t = LOW) (tasks m1) = [tlow]
        \<and> filter (\<lambda>t. priority t = MEDIUM) (tasks m1) = [tmed]
        \<and> member_id m2 \<noteq> member_id m1"
  then show "sweep uid [tm] [] [] =
           ([tm\<lparr>members := [m1, m2\<lparr>tasks := [tlow]\<rparr>]\<rparr>],
            move_writes uid m1 m2 tlow, [move_record (team_name tm) m1 m2 tlow])"
    using scenarioA_general [of tm m1 m2 tlow tmed uid] by blast
next
  show "POST (Some ''u1'') scenarioA =
     (Ok200 ''Successfully reassigned 1 task(s)''
        [\<lparr>r_taskId = ''l'', r_taskTitle = ''Task l'', r_fromMember = ''Ann'',
          r_toMember = ''Bob'', r_teamName = ''Core''\<rparr>],
      scenarioA
        \<lparr>db_tasks := [mk_task ''h'' HIGH PENDING ''m1'', mk_task ''m'' MEDIUM IN_PROGRESS ''m1'',
                      mk_task ''l'' LOW PENDING ''m2''],
         db_logs := [\<lparr>log_taskId = ''l'', log_action = ''Reassigned from Ann to Bob'',
                      log_description = ''Task '' @ [CHR 0x22] @ ''Task l'' @ [CHR 0x22]
                         @ '' reassigned from Ann to Bob'',
                      log_userId = ''u1''\<rparr>]\<rparr>)"
    by (rule scenarioA_POST)
qed

theorem sweep_chooses_lowest_excess_witness:
  "tasksToReassign (scenarioA_members ! 0) = [mk_task ''l'' LOW PENDING ''m1'']
   \<and> sweep ''u1'' [\<lparr>team_id = ''T'', team_name = ''Core'', members = scenarioA_members\<rparr>] [] [] =
      ([\<lparr>team_id = ''T'', team_name = ''Core'',
         members = [scenarioA_members ! 0,
                    (scenarioA_members ! 1)\<lparr>tasks := [mk_task ''l'' LOW PENDING ''m1'']\<rparr>]\<rparr>],
       move_writes ''u1'' (scenarioA_members ! 0) (scenarioA_members ! 1)
         (mk_task ''l'' LOW PENDING ''m1''),
       [move_record ''Core'' (scenarioA_members ! 0) (scenarioA_members ! 1)
         (mk_task ''l'' LOW PENDING ''m1'')])"
proof -
  let ?tm = "\<lparr>team_id = ''T'', team_name = ''Core'', members = scenarioA_members\<rparr>"
  let ?m1 = "scenarioA_members ! 0" and ?m2 = "scenarioA_members ! 1"
  let ?tlow = "mk_task ''l'' LOW PENDING ''m1''" and ?tmed = "mk_task ''m'' MEDIUM IN_PROGRESS ''m1''"
  note T = sweep_chooses_lowest_excess [of ?m1 0 "\<lparr>mem = scenarioA_members, writes = [], reassignments = []\<rparr>"
      "''u1''" "''Core''" ?tm ?m1 ?m2 ?tlow ?tmed]
  have o: "capacity ?m1 < int (length (tasks ?m1))"
    by (simp add: scenarioA_members_def)
  have e: "take (nat (int (length (tasks ?m1)) - capacity ?m1))
          (filter (\<lambda>t. priority t = LOW) (tasks ?m1) @ filter (\<lambda>t. priority t = MEDIUM) (tasks ?m1))
        = [?tlow]"
    by (simp add: scenarioA_members_def mk_task_def)
  from T [THEN conjunct1, rule_format, OF o, THEN conjunct1] e
  have a: "tasksToReassign ?m1 = [?tlow]" by simp
  have H: "members ?tm = [?m1, ?m2] \<and> capacity ?m1 = 2 \<and> capacity ?m2 = 2 \<and> tasks ?m2 = []
        \<and> length (tasks ?m1) = 3
        \<and> filter (\<lambda>t. priority t = LOW) (tasks ?m1) = [?tlow]
        \<and> filter (\<lambda>t. priority t = MEDIUM) (tasks ?m1) = [?tmed]
        \<and> member_id ?m2 \<noteq> member_id ?m1"
    by (simp add: scenarioA_members_def mk_task_def)
  from T [THEN conjunct2, THEN conjunct2, THEN conjunct1, rule_format, OF H]
  have b: "sweep ''u1'' [?tm] [] [] =
           ([?tm\<lparr>members := [?m1, ?m2\<lparr>tasks := [?tlow]\<rparr>]\<rparr>],
            move_writes ''u1'' ?m1 ?m2 ?tlow, [move_record (team_name ?tm) ?m1 ?m2 ?tlow])" .
  from a b show ?thesis by simp
qed

subsection \<open>Members with spare capacity\<close>

lemma with_count_simps:
  "member_id (with_count d row) = member_id row"
  "member_name (with_count d row) = member_name row"
  "capacity (with_count d row) = capacity row"
  "teamId (with_count d row) = teamId row"
  "count_tasks (with_count d row) = getMemberActiveTaskCount d (member_id row)"
  by (simp_all add: with_count_def open_tasks_count)

lemma set_getMembersWithCapacity:
  "set (getMembersWithCapacity d tid) =
     {with_count d m | m. m \<in> set (db_members d) \<and> teamId m = tid
        \<and> int (getMemberActiveTaskCount d (member_id m)) < capacity m}"
  by (auto simp: getMembersWithCapacity_def findMany_members_def with_count_simps)

lemma findBest_case:
  "findBestMemberForTask d tid =
     (case getMembersWithCapacity d tid of [] \<Rightarrow> None | m # _ \<Rightarrow> Some m)"
  by (simp add: findBestMemberForTask_def Let_def split: list.splits)

lemma findBest_None:
  "findBestMemberForTask d tid = None \<longleftrightarrow>
     (\<forall>m \<in> set (db_members d). teamId m = tid
         \<longrightarrow> capacity m \<le> int (getMemberActiveTaskCount d (member_id m)))"
proof -
  have "findBestMemberForTask d tid = None \<longleftrightarrow> set (getMembersWithCapacity d tid) = {}"
    by (simp add: findBest_case split: list.splits)
  also have "\<dots> \<longleftrightarrow> (\<forall>m \<in> set (db_members d). teamId m = tid
         \<longrightarrow> capacity m \<le> int (getMemberActiveTaskCount d (member_id m)))"
    unfolding set_getMembersWithCapacity by auto
  finally show ?thesis .
qed

lemma findBest_Some:
  assumes "findBestMemberForTask d tid = Some b"
  shows "b \<in> set (getMembersWithCapacity d tid)
       \<and> (\<forall>m \<in> set (getMembersWithCapacity d tid). count_tasks b \<le> count_tasks m)"
proof -
  from assms obtain rest where e: "getMembersWithCapacity d tid = b # rest"
    by (auto simp: findBest_case split: list.splits)
  have "sorted (map count_tasks (getMembersWithCapacity d tid))"
    by (simp add: getMembersWithCapacity_def)
  with e show ?thesis by auto
qed

text \<open>
  C8. \<open>getMembersWithCapacity\<close> returns the members of the team whose current load
  is under their capacity, each as often as the table holds it and those of equal
  load in the table's order, sorted by ascending load. \<open>findBestMemberForTask\<close>
  returns the first of them, which has the least load, and returns nothing exactly
  when every member of the team is at or over capacity; auto-assignment without a
  requested assignee then creates the task unassigned.
\<close>

theorem getMembersWithCapacity_sorted_spare:
  "set (getMembersWithCapacity d tid) =
     {with_count d m | m. m \<in> set (db_members d) \<and> teamId m = tid
        \<and> int (getMemberActiveTaskCount d (member_id m)) < capacity m}
   \<and> (\<forall>k. filter (\<lambda>m. count_tasks m = k) (getMembersWithCapacity d tid)
          = filter (\<lambda>m. count_tasks m = k)
              (filter (\<lambda>m. int (count_tasks m) < capacity m) (findMany_members d tid)))
   \<and> sorted (map count_tasks (getMembersWithCapacity d tid))
   \<and> findBestMemberForTask d tid =
        (case getMembersWithCapacity d tid of [] \<Rightarrow> None | m # _ \<Rightarrow> Some m)
   \<and> (\<forall>b. findBestMemberForTask d tid = Some b \<longrightarrow>
          int (count_tasks b) < capacity b
          \<and> (\<forall>m \<in> set (getMembersWithCapacity d tid). count_tasks b \<le> count_tasks m))
   \<and> (findBestMemberForTask d tid = None \<longleftrightarrow>
        (\<forall>m \<in> set (db_members d). teamId m = tid
            \<longrightarrow> capacity m \<le> int (getMemberActiveTaskCount d (member_id m))))
   \<and> ((\<forall>m \<in> set (db_members d). teamId m = tid
            \<longrightarrow> capacity m \<le> int (getMemberActiveTaskCount d (member_id m)))
        \<and> \<not> truthy bodyAssignedToId
      \<longrightarrow> tasks_POST_assign d tid bodyAssignedToId True forceAssign = Created None)"
proof (intro conjI allI impI)
  show "set (getMembersWithCapacity d tid) =
     {with_count d m | m. m \<in> set (db_members d) \<and> teamId m = tid
        \<and> int (getMemberActiveTaskCount d (member_id m)) < capacity m}"
    by (rule set_getMembersWithCapacity)
  show "filter (\<lambda>m. count_tasks m = k) (getMembersWithCapacity d tid)
          = filter (\<lambda>m. count_tasks m = k)
              (filter (\<lambda>m. int (count_tasks m) < capacity m) (findMany_members d tid))" for k
    unfolding getMembersWithCapacity_def by (rule sort_key_stable)
  show "sorted (map count_tasks (getMembersWithCapacity d tid))"
    by (simp add: getMembersWithCapacity_def)
  show "findBestMemberForTask d tid =
        (case getMembersWithCapacity d tid of [] \<Rightarrow> None | m # _ \<Rightarrow> Some m)"
    by (rule findBest_case)
  show "findBestMemberForTask d tid = None \<longleftrightarrow>
        (\<forall>m \<in> set (db_members d). teamId m = tid
            \<longrightarrow> capacity m \<le> int (getMemberActiveTaskCount d (member_id m)))"
    by (rule findBest_None)
next
  fix b assume b: "findBestMemberForTask d tid = Some b"
  from findBest_Some [OF b] have "b \<in> set (getMembersWithCapacity d tid)" by simp
  then show "int (count_tasks b) < capacity b"
    by (auto simp: set_getMembersWithCapacity with_count_simps)
  from findBest_Some [OF b]
  show "\<forall>m \<in> set (getMembersWithCapacity d tid). count_tasks b \<le> count_tasks m" by simp
next
  assume a: "(\<forall>m \<in> set (db_members d). teamId m = tid
            \<longrightarrow> capacity m \<le> int (getMemberActiveTaskCount d (member_id m)))
        \<and> \<not> truthy bodyAssignedToId"
  then have n: "findBestMemberForTask d tid = None" by (simp add: findBest_None)
  from a have f: "\<not> truthy bodyAssignedToId" by simp
  show "tasks_POST_assign d tid bodyAssignedToId True forceAssign = Created None"
  proof (cases bodyAssignedToId)
    case None
    with n show ?thesis by (simp add: tasks_POST_assign_def truthy_def)
  next
    case (Some v)
    with f have "v = []" by (simp add: truthy_def)
    with Some n show ?thesis by (simp add: tasks_POST_assign_def truthy_def)
  qed
qed

lemma scenarioD_all_full:
  "\<forall>m \<in> set (db_members scenarioD).
      teamId m = ''T'' \<longrightarrow> capacity m \<le> int (getMemberActiveTaskCount scenarioD (member_id m))"
  by (simp add: scenarioD_def getMemberActiveTaskCount_def mk_task_def)

theorem getMembersWithCapacity_sorted_spare_witness:
  "findBestMemberForTask scenarioB ''T''
     = Some \<lparr>member_id = ''m2'', member_name = ''Bob'', capacity = 2, teamId = ''T'', count_tasks = 0\<rparr>
   \<and> int (count_tasks \<lparr>member_id = ''m2'', member_name = ''Bob'', capacity = 2, teamId = ''T'',
                       count_tasks = 0\<rparr>) < 2
   \<and> findBestMemberForTask scenarioD ''T'' = None
   \<and> tasks_POST_assign scenarioD ''T'' None True False = Created None"
proof -
  let ?b = "\<lparr>member_id = ''m2'', member_name = ''Bob'', capacity = 2, teamId = ''T'', count_tasks = 0\<rparr>"
  have g: "getMembersWithCapacity scenarioB ''T'' = [?b]"
    by (simp add: getMembersWithCapacity_def findMany_members_def with_count_def open_tasks_def
        scenarioB_def mk_task_def)
  note T = getMembersWithCapacity_sorted_spare [of scenarioB "''T''" None False]
  from T g have a: "findBestMemberForTask scenarioB ''T'' = Some ?b" by simp
  with T have b: "int (count_tasks ?b) < capacity ?b" by blast
  note U = getMembersWithCapacity_sorted_spare [of scenarioD "''T''" None False]
  have nt: "\<not> truthy None" by (simp add: truthy_def)
  from U scenarioD_all_full have c: "findBestMemberForTask scenarioD ''T'' = None" by blast
  from U scenarioD_all_full nt have e: "tasks_POST_assign scenarioD ''T'' None True False = Created None"
    by blast
  from a b c e show ?thesis by simp
qed

subsection \<open>The sweep and the specification's algorithm\<close>

lemma insort_key_cong_set:
  "f x = g x \<Longrightarrow> (\<And>y. y \<in> set ys \<Longrightarrow> f y = g y) \<Longrightarrow> insort_key f x ys = insort_key g x ys"
  by (induction ys) auto

lemma sort_key_cong_set:
  "(\<And>x. x \<in> set xs \<Longrightarrow> f x = g x) \<Longrightarrow> sort_key f xs = sort_key g xs"
proof (induction xs)
  case Nil
  show ?case by simp
next
  case (Cons a xs)
  then have ih: "sort_key f xs = sort_key g xs" by simp
  have "insort_key f a (sort_key g xs) = insort_key g a (sort_key g xs)"
    by (rule insort_key_cong_set) (simp_all add: Cons.prems)
  with ih show ?case by simp
qed

lemma grows_counts:
  assumes "grows ms ms'" "cs = map (\<lambda>m. length (tasks m)) ms'" "j < length ms"
  shows "cs ! j = length (tasks (ms' ! j))" "capacity (ms' ! j) = capacity (ms ! j)"
    "member_id (ms' ! j) = member_id (ms ! j)"
  using assms by (simp_all add: grows_def)

lemma find_target_spec:
  assumes g: "grows ms ms'" and cs: "cs = map (\<lambda>m. length (tasks m)) ms'"
    and sub: "set avail \<subseteq> {..<length ms}"
  shows "find_target ms' avail = find (\<lambda>j. int (cs ! j) < capacity (ms ! j)) avail"
  unfolding find_target_def
proof (rule find_cong [OF refl])
  fix j assume "j \<in> set avail"
  with sub have "j < length ms" by auto
  from grows_counts [OF g cs this]
  show "(int (length (tasks (ms' ! j))) < capacity (ms' ! j)) = (int (cs ! j) < capacity (ms ! j))"
    by simp
qed

lemma availableMembers_spec:
  assumes g: "grows ms ms'" and cs: "cs = map (\<lambda>m. length (tasks m)) ms'" and i: "i < length ms"
  shows "availableMembers ms' i = spec_available ms cs i"
proof -
  have len: "length ms' = length ms" using g by (simp add: grows_def)
  have f: "filter (\<lambda>j. member_id (ms' ! j) \<noteq> member_id (ms' ! i)
                   \<and> int (length (tasks (ms' ! j))) < capacity (ms' ! j)) [0..<length ms]
         = filter (\<lambda>j. member_id (ms ! j) \<noteq> member_id (ms ! i) \<and> int (cs ! j) < capacity (ms ! j))
             [0..<length ms]"
  proof (rule filter_cong [OF refl])
    fix j assume "j \<in> set [0..<length ms]"
    then have j: "j < length ms" by simp
    from grows_counts [OF g cs j] grows_counts(3) [OF g cs i]
    show "(member_id (ms' ! j) \<noteq> member_id (ms' ! i)
                   \<and> int (length (tasks (ms' ! j))) < capacity (ms' ! j))
        = (member_id (ms ! j) \<noteq> member_id (ms ! i) \<and> int (cs ! j) < capacity (ms ! j))"
      by simp
  qed
  have s: "sort_key (\<lambda>j. length (tasks (ms' ! j))) xs = sort_key (\<lambda>j. cs ! j) xs"
    if "set xs \<subseteq> {..<length ms}" for xs
  proof (rule sort_key_cong_set)
    fix x assume "x \<in> set xs"
    with that have "x < length ms" by auto
    from grows_counts(1) [OF g cs this] show "length (tasks (ms' ! x)) = cs ! x" by simp
  qed
  show ?thesis
    unfolding availableMembers_def spec_available_def len f
    by (rule s) auto
qed

lemma spec_candidates_eq:
  "capacity m < int (length (tasks m)) \<Longrightarrow> tasksToReassign m = spec_candidates m"
  by (simp add: tasksToReassign_overloaded spec_candidates_def)

lemma spec_overloaded_eq: "overloadedMembers ms = spec_overloaded ms"
  by (simp add: overloadedMembers_def spec_overloaded_def)

lemma reassign_loop_coupled:
  assumes "coupled uid tn ms ws0 rs0 st (mvs, cs)" "i < length ms" "set avail \<subseteq> {..<length ms}"
  shows "coupled uid tn ms ws0 rs0 (reassign_loop uid tn i avail ts st)
           (mvs @ fst (spec_assign ms i avail ts cs), snd (spec_assign ms i avail ts cs))"
  using assms
proof (induction ts arbitrary: st mvs cs)
  case Nil
  then show ?case by simp
next
  case (Cons t ts)
  from Cons.prems(1) have g: "grows ms (mem st)" and cs: "cs = map (\<lambda>m. length (tasks m)) (mem st)"
    by (simp_all add: coupled_def)
  have len: "length (mem st) = length ms" using g by (simp add: grows_def)
  note ft = find_target_spec [OF g cs Cons.prems(3)]
  show ?case
  proof (cases "find_target (mem st) avail")
    case None
    with ft Cons.prems(1) show ?thesis by simp
  next
    case (Some j)
    from find_target_Some [OF Some] Cons.prems(3)
    have j: "j < length ms" and u: "int (length (tasks (mem st ! j))) < capacity (mem st ! j)"
      by auto
    let ?st = "move_task uid tn i j t st"
    have g1: "grows (mem st) (mem ?st)"
      unfolding mem_move_task using j u len by (simp add: grows_push)
    with g have g': "grows ms (mem ?st)" by (rule grows_trans)
    have cs': "cs[j := cs ! j + 1] = map (\<lambda>m. length (tasks m)) (mem ?st)"
      using j len cs by (simp add: mem_move_task map_update)
    have w: "writes ?st = writes st @ move_writes uid (ms ! i) (ms ! j) t"
      using grows_move_writes [OF g Cons.prems(2) j] by (simp add: move_task_def Let_def)
    have r: "reassignments ?st = reassignments st @ [move_record tn (ms ! i) (ms ! j) t]"
      using grows_move_record [OF g Cons.prems(2) j] by (simp add: move_task_def Let_def)
    have c: "coupled uid tn ms ws0 rs0 ?st (mvs @ [(i, t, j)], cs[j := cs ! j + 1])"
      using Cons.prems(1) g' cs' w r by (simp add: coupled_def)
    from Cons.IH [OF c Cons.prems(2) Cons.prems(3)] Some ft
    show ?thesis by (simp add: split_beta Let_def)
  qed
qed

lemma process_member_coupled:
  assumes c: "coupled uid tn ms ws0 rs0 st acc" and i: "i < length ms"
    and o: "capacity (ms ! i) < int (length (tasks (ms ! i)))"
  shows "coupled uid tn ms ws0 rs0 (process_member uid tn st i) (spec_member True ms cs0 acc i)"
proof -
  obtain mvs cs where acc: "acc = (mvs, cs)" by (cases acc)
  from c acc have g: "grows ms (mem st)" and cs: "cs = map (\<lambda>m. length (tasks m)) (mem st)"
    by (simp_all add: coupled_def)
  have same: "mem st ! i = ms ! i" using g i o by (rule grows_overloaded_same)
  have av: "availableMembers (mem st) i = spec_available ms cs i"
    using g cs i by (rule availableMembers_spec)
  have sub: "set (spec_available ms cs i) \<subseteq> {..<length ms}"
    by (auto simp: spec_available_def)
  from reassign_loop_coupled [OF c [unfolded acc] i sub, of "spec_candidates (ms ! i)"]
  show ?thesis
    by (simp add: process_member_def same av spec_candidates_eq [OF o] spec_member_def acc
        split_beta Let_def)
qed

lemma foldl_process_member_coupled:
  assumes "coupled uid tn ms ws0 rs0 st acc"
    and "\<forall>i \<in> set is. i < length ms \<and> capacity (ms ! i) < int (length (tasks (ms ! i)))"
  shows "coupled uid tn ms ws0 rs0 (foldl (process_member uid tn) st is)
           (foldl (spec_member True ms cs0) acc is)"
  using assms
proof (induction "is" arbitrary: st acc)
  case Nil
  then show ?case by simp
next
  case (Cons i "is")
  from Cons.prems have "coupled uid tn ms ws0 rs0 (process_member uid tn st i)
      (spec_member True ms cs0 acc i)"
    by (simp add: process_member_coupled)
  with Cons.prems(2) show ?case by (simp add: Cons.IH)
qed

lemma process_team_spec:
  "writes (process_team uid tm ws rs) = ws @ spec_writes True uid [tm]
   \<and> reassignments (process_team uid tm ws rs) = rs @ spec_reassignments True [tm]"
proof -
  let ?ms = "members tm"
  let ?st = "\<lparr>mem = ?ms, writes = ws, reassignments = rs\<rparr>"
  let ?cs0 = "map (\<lambda>m. length (tasks m)) ?ms"
  have c0: "coupled uid (team_name tm) ?ms ws rs ?st ([], ?cs0)"
    by (simp add: coupled_def grows_refl)
  have ov: "\<forall>i \<in> set (spec_overloaded ?ms).
      i < length ?ms \<and> capacity (?ms ! i) < int (length (tasks (?ms ! i)))"
    by (simp add: spec_overloaded_def)
  have pt: "process_team uid tm ws rs = foldl (process_member uid (team_name tm)) ?st (spec_overloaded ?ms)"
    by (cases "spec_overloaded ?ms") (simp_all add: process_team_def spec_overloaded_eq Let_def)
  from foldl_process_member_coupled [OF c0 ov, of ?cs0]
  show ?thesis
    unfolding pt
    by (simp add: coupled_def spec_writes_def spec_reassignments_def spec_team_def Let_def)
qed

lemma spec_writes_Cons: "spec_writes p uid (tm # tms) = spec_writes p uid [tm] @ spec_writes p uid tms"
  by (simp add: spec_writes_def)

lemma spec_reassignments_Cons:
  "spec_reassignments p (tm # tms) = spec_reassignments p [tm] @ spec_reassignments p tms"
  by (simp add: spec_reassignments_def)

lemma sweep_spec:
  "snd (sweep uid tms ws rs) = (ws @ spec_writes True uid tms, rs @ spec_reassignments True tms)"
proof (induction tms arbitrary: ws rs)
  case Nil
  show ?case by (simp add: spec_writes_def spec_reassignments_def)
next
  case (Cons tm tms)
  show ?case
    using Cons.IH [of "writes (process_team uid tm ws rs)" "reassignments (process_team uid tm ws rs)"]
      process_team_spec [of uid tm ws rs]
    by (simp add: Let_def split_beta spec_writes_Cons [of _ _ tm tms]
        spec_reassignments_Cons [of _ tm tms])
qed

lemma scenarioE_spec_once:
  "spec_reassignments False (findMany_teams scenarioE) =
     [\<lparr>r_taskId = ''a'', r_taskTitle = ''Task a'', r_fromMember = ''Ann'',
       r_toMember = ''Cy'', r_teamName = ''Core''\<rparr>,
      \<lparr>r_taskId = ''b'', r_taskTitle = ''Task b'', r_fromMember = ''Bob'',
       r_toMember = ''Cy'', r_teamName = ''Core''\<rparr>]"
  by code_simp

lemma scenarioE_spec_per_member:
  "spec_reassignments True (findMany_teams scenarioE) =
     [\<lparr>r_taskId = ''a'', r_taskTitle = ''Task a'', r_fromMember = ''Ann'',
       r_toMember = ''Cy'', r_teamName = ''Core''\<rparr>,
      \<lparr>r_taskId = ''b'', r_taskTitle = ''Task b'', r_fromMember = ''Bob'',
       r_toMember = ''Di'', r_teamName = ''Core''\<rparr>]"
  by code_simp

lemma scenarioE_sweep:
  "snd (snd (sweep ''u1'' (findMany_teams scenarioE) [] [])) =
     [\<lparr>r_taskId = ''a'', r_taskTitle = ''Task a'', r_fromMember = ''Ann'',
       r_toMember = ''Cy'', r_teamName = ''Core''\<rparr>,
      \<lparr>r_taskId = ''b'', r_taskTitle = ''Task b'', r_fromMember = ''Bob'',
       r_toMember = ''Di'', r_teamName = ''Core''\<rparr>]"
  by code_simp

text \<open>
  C9, as the specification states it, fails: with two overloaded members in one
  team, the available members computed once for the team keep Cy first, so both
  tasks go to Cy, while the sweep computes them again for Bob, finds Di less
  loaded than Cy, and sends Bob's task to Di.
\<close>

theorem available_once_per_team_counterexample:
  "snd (snd (sweep ''u1'' (findMany_teams scenarioE) [] []))
     \<noteq> spec_reassignments False (findMany_teams scenarioE)"
  by (simp add: scenarioE_sweep scenarioE_spec_once)

text \<open>
  C9, amended. The list of available target members (every other member of the
  team whose running open-task count is under its capacity, by ascending running
  count) is computed for each overloaded member, when the processing of that
  member starts, from the counts as the moves made so far in the sweep have left
  them. The writes and the reassignment records of the sweep are those of the
  specification's algorithm with that list so computed, and so is the answer of
  the handler and the store it leaves.
\<close>

theorem sweep_refines_spec_per_member:
  "snd (sweep uid tms [] []) = (spec_writes True uid tms, spec_reassignments True tms)
   \<and> (uid \<noteq> [] \<longrightarrow>
        POST (Some uid) d =
          (let (ok, d') = exec_writes (spec_writes True uid (findMany_teams d)) d;
               rs = spec_reassignments True (findMany_teams d)
           in if ok
              then (Ok200 (''Successfully reassigned '' @ show_nat (length rs) @ '' task(s)'') rs, d')
              else (Failed500, d')))"
proof (intro conjI impI)
  show "snd (sweep uid tms [] []) = (spec_writes True uid tms, spec_reassignments True tms)"
    using sweep_spec [of uid tms "[]" "[]"] by simp
next
  assume u: "uid \<noteq> []"
  obtain a ws rs where s: "sweep uid (findMany_teams d) [] [] = (a, ws, rs)"
    by (cases "sweep uid (findMany_teams d) [] []") auto
  with sweep_spec [of uid "findMany_teams d" "[]" "[]"]
  have e: "ws = spec_writes True uid (findMany_teams d)"
    "rs = spec_reassignments True (findMany_teams d)" by simp_all
  show "POST (Some uid) d =
          (let (ok, d') = exec_writes (spec_writes True uid (findMany_teams d)) d;
               rs = spec_reassignments True (findMany_teams d)
           in if ok
              then (Ok200 (''Successfully reassigned '' @ show_nat (length rs) @ '' task(s)'') rs, d')
              else (Failed500, d'))"
    using u s e by (simp add: POST_def Let_def split_beta)
qed

theorem sweep_refines_spec_per_member_witness:
  "snd (snd (sweep ''u1'' (findMany_teams scenarioE) [] [])) =
     [\<lparr>r_taskId = ''a'', r_taskTitle = ''Task a'', r_fromMember = ''Ann'',
       r_toMember = ''Cy'', r_teamName = ''Core''\<rparr>,
      \<lparr>r_taskId = ''b'', r_taskTitle = ''Task b'', r_fromMember = ''Bob'',
       r_toMember = ''Di'', r_teamName = ''Core''\<rparr>]
   \<and> fst (POST (Some ''u1'') scenarioE) =
       Ok200 ''Successfully reassigned 2 task(s)''
         [\<lparr>r_taskId = ''a'', r_taskTitle = ''Task a'', r_fromMember = ''Ann'',
           r_toMember = ''Cy'', r_teamName = ''Core''\<rparr>,
          \<lparr>r_taskId = ''b'', r_taskTitle = ''Task b'', r_fromMember = ''Bob'',
           r_toMember = ''Di'', r_teamName = ''Core''\<rparr>]"
proof -
  note T = sweep_refines_spec_per_member [of "''u1''" "findMany_teams scenarioE" scenarioE]
  have ne: "''u1'' \<noteq> []" by simp
  have ok: "fst (exec_writes (spec_writes True ''u1'' (findMany_teams scenarioE)) scenarioE)"
    by code_simp
  have n: "show_nat (Suc (Suc 0)) = ''2''" by (simp add: show_nat.simps digit_char_def)
  from T have a: "snd (snd (sweep ''u1'' (findMany_teams scenarioE) [] []))
      = spec_reassignments True (findMany_teams scenarioE)" by simp
  from T [THEN conjunct2, rule_format, OF ne] ok
  have b: "fst (POST (Some ''u1'') scenarioE) =
      Ok200 (''Successfully reassigned ''
               @ show_nat (length (spec_reassignments True (findMany_teams scenarioE))) @ '' task(s)'')
        (spec_reassignments True (findMany_teams scenarioE))"
    by (simp add: Let_def split_beta)
  from a b show ?thesis by (simp add: scenarioE_spec_per_member n)
qed

subsection \<open>The moves of a sweep and the running counts\<close>

lemma moves_under_capacity_snoc:
  assumes "moves_under_capacity ms mvs" "i < length ms" "j < length ms"
    and "int (running_count ms mvs j) < capacity (ms ! j)"
  shows "moves_under_capacity ms (mvs @ [(i, t, j)])"
  unfolding moves_under_capacity_def
proof (intro allI impI)
  fix n assume n: "n < length (mvs @ [(i, t, j)])"
  show "fst ((mvs @ [(i, t, j)]) ! n) < length ms \<and> snd (snd ((mvs @ [(i, t, j)]) ! n)) < length ms
        \<and> int (running_count ms (take n (mvs @ [(i, t, j)])) (snd (snd ((mvs @ [(i, t, j)]) ! n))))
             < capacity (ms ! snd (snd ((mvs @ [(i, t, j)]) ! n)))"
  proof (cases "n < length mvs")
    case True
    with assms(1) show ?thesis
      by (simp add: moves_under_capacity_def nth_append)
  next
    case False
    with n have "n = length mvs" by simp
    with assms(2-4) show ?thesis by simp
  qed
qed

lemma received_snoc:
  "received (mvs @ [(i, t, j)]) k = (if k = j then received mvs k @ [t] else received mvs k)"
  by (simp add: received_def)

lemma trace_writes_snoc:
  "trace_writes uid ms (mvs @ [(i, t, j)]) = trace_writes uid ms mvs @ move_writes uid (ms ! i) (ms ! j) t"
  by (simp add: trace_writes_def)

lemma trace_records_snoc:
  "trace_records tn ms (mvs @ [(i, t, j)]) = trace_records tn ms mvs @ [move_record tn (ms ! i) (ms ! j) t]"
  by (simp add: trace_records_def)

lemma traced_running_count:
  assumes "traced uid tn ms ws0 rs0 st mvs" "j < length ms"
  shows "length (tasks (mem st ! j)) = running_count ms mvs j"
  using assms by (simp add: traced_def running_count_def received_def)

lemma move_task_traced:
  assumes tr: "traced uid tn ms ws0 rs0 st mvs" and i: "i < length ms" and j: "j < length ms"
    and u: "int (length (tasks (mem st ! j))) < capacity (mem st ! j)"
  shows "traced uid tn ms ws0 rs0 (move_task uid tn i j t st) (mvs @ [(i, t, j)])"
proof -
  from tr have g: "grows ms (mem st)" by (simp add: traced_def)
  then have len: "length (mem st) = length ms" by (simp add: grows_def)
  let ?st = "move_task uid tn i j t st"
  have g1: "grows (mem st) (mem ?st)"
    unfolding mem_move_task using j u len by (simp add: grows_push)
  with g have g': "grows ms (mem ?st)" by (rule grows_trans)
  have w: "writes ?st = writes st @ move_writes uid (ms ! i) (ms ! j) t"
    using grows_move_writes [OF g i j] by (simp add: move_task_def Let_def)
  have r: "reassignments ?st = reassignments st @ [move_record tn (ms ! i) (ms ! j) t]"
    using grows_move_record [OF g i j] by (simp add: move_task_def Let_def)
  have cap: "capacity (mem st ! j) = capacity (ms ! j)" using g j by (simp add: grows_def)
  have rc: "int (running_count ms mvs j) < capacity (ms ! j)"
    using traced_running_count [OF tr j] u cap by simp
  have ts: "\<forall>k < length ms. tasks (mem ?st ! k) = tasks (ms ! k) @ received (mvs @ [(i, t, j)]) k"
  proof (intro allI impI)
    fix k assume k: "k < length ms"
    with tr have "tasks (mem st ! k) = tasks (ms ! k) @ received mvs k" by (simp add: traced_def)
    with k j len show "tasks (mem ?st ! k) = tasks (ms ! k) @ received (mvs @ [(i, t, j)]) k"
      by (auto simp: mem_move_task received_snoc nth_list_update)
  qed
  from tr have "moves_under_capacity ms mvs" by (simp add: traced_def)
  then have "moves_under_capacity ms (mvs @ [(i, t, j)])"
    using i j rc by (rule moves_under_capacity_snoc)
  with tr g' w r ts show ?thesis
    by (simp add: traced_def trace_writes_snoc trace_records_snoc)
qed

lemma reassign_loop_traced:
  assumes "traced uid tn ms ws0 rs0 st mvs" "i < length ms" "set avail \<subseteq> {..<length ms}"
  shows "\<exists>new. traced uid tn ms ws0 rs0 (reassign_loop uid tn i avail ts st) (mvs @ new)"
  using assms
proof (induction ts arbitrary: st mvs)
  case Nil
  then show ?case by (intro exI [of _ "[]"]) simp
next
  case (Cons t ts)
  show ?case
  proof (cases "find_target (mem st) avail")
    case None
    with Cons.prems(1) show ?thesis by (intro exI [of _ "[]"]) simp
  next
    case (Some j)
    from find_target_Some [OF Some] Cons.prems(3)
    have j: "j < length ms" and u: "int (length (tasks (mem st ! j))) < capacity (mem st ! j)"
      by auto
    from Cons.prems(1) Cons.prems(2) j u
    have "traced uid tn ms ws0 rs0 (move_task uid tn i j t st) (mvs @ [(i, t, j)])"
      by (rule move_task_traced)
    from Cons.IH [OF this Cons.prems(2) Cons.prems(3)]
    obtain new where "traced uid tn ms ws0 rs0
        (reassign_loop uid tn i avail ts (move_task uid tn i j t st)) ((mvs @ [(i, t, j)]) @ new)"
      by blast
    with Some show ?thesis by (intro exI [of _ "(i, t, j) # new"]) simp
  qed
qed

lemma process_member_traced:
  assumes tr: "traced uid tn ms ws0 rs0 st mvs" and i: "i < length ms"
  shows "\<exists>new. traced uid tn ms ws0 rs0 (process_member uid tn st i) (mvs @ new)"
proof -
  from tr have "length (mem st) = length ms" by (simp add: traced_def grows_def)
  then have "set (availableMembers (mem st) i) \<subseteq> {..<length ms}"
    by (auto simp: availableMembers_set)
  with tr i show ?thesis
    unfolding process_member_def by (rule reassign_loop_traced)
qed

lemma foldl_process_member_traced:
  assumes "traced uid tn ms ws0 rs0 st mvs" "\<forall>i \<in> set is. i < length ms"
  shows "\<exists>new. traced uid tn ms ws0 rs0 (foldl (process_member uid tn) st is) (mvs @ new)"
  using assms
proof (induction "is" arbitrary: st mvs)
  case Nil
  then show ?case by (intro exI [of _ "[]"]) simp
next
  case (Cons i "is")
  from Cons.prems obtain new where
    n: "traced uid tn ms ws0 rs0 (process_member uid tn st i) (mvs @ new)"
    using process_member_traced [of uid tn ms ws0 rs0 st mvs i] by auto
  from Cons.prems(2) have "\<forall>i \<in> set is. i < length ms" by simp
  from Cons.IH [OF n this] obtain new' where
    "traced uid tn ms ws0 rs0 (foldl (process_member uid tn) (process_member uid tn st i) is)
       ((mvs @ new) @ new')" by blast
  then show ?case by (intro exI [of _ "new @ new'"]) simp
qed

lemma process_team_traced:
  "\<exists>mvs. traced uid (team_name tm) (members tm) ws rs (process_team uid tm ws rs) mvs"
proof -
  let ?st = "\<lparr>mem = members tm, writes = ws, reassignments = rs\<rparr>"
  have base: "traced uid (team_name tm) (members tm) ws rs ?st []"
    by (simp add: traced_def grows_refl received_def trace_writes_def trace_records_def
        moves_under_capacity_def)
  have "\<forall>i \<in> set (overloadedMembers (members tm)). i < length (members tm)"
    by (simp add: overloadedMembers_def)
  from foldl_process_member_traced [OF base this]
  obtain new where "traced uid (team_name tm) (members tm) ws rs
      (foldl (process_member uid (team_name tm)) ?st (overloadedMembers (members tm))) new"
    by auto
  with base show ?thesis
    by (auto simp: process_team_def Let_def)
qed

lemma sweep_traced:
  assumes "sweep uid tms ws rs = (tms', ws', rs')"
  shows "\<exists>mvss. length mvss = length tms
     \<and> ws' = ws @ concat (map (\<lambda>(tm, mvs). trace_writes uid (members tm) mvs) (zip tms mvss))
     \<and> rs' = rs @ concat (map (\<lambda>(tm, mvs). trace_records (team_name tm) (members tm) mvs)
                             (zip tms mvss))
     \<and> (\<forall>n < length tms.
           moves_under_capacity (members (tms ! n)) (mvss ! n)
           \<and> (\<forall>k < length (members (tms ! n)).
                 tasks (members (tms' ! n) ! k)
                   = tasks (members (tms ! n) ! k) @ received (mvss ! n) k))"
  using assms
proof (induction tms arbitrary: ws rs tms' ws' rs')
  case Nil
  then show ?case by simp
next
  case (Cons tm tms)
  let ?st = "process_team uid tm ws rs"
  obtain a b c where r: "sweep uid tms (writes ?st) (reassignments ?st) = (a, b, c)"
    by (cases "sweep uid tms (writes ?st) (reassignments ?st)") auto
  with Cons.prems have e: "tms' = tm\<lparr>members := mem ?st\<rparr> # a" "ws' = b" "rs' = c"
    by (simp_all add: Let_def)
  from process_team_traced [of uid tm ws rs] obtain mvs where
    t: "traced uid (team_name tm) (members tm) ws rs ?st mvs" by blast
  from Cons.IH [OF r] obtain mvss where
    m: "length mvss = length tms"
      "b = writes ?st @ concat (map (\<lambda>(tm, mvs). trace_writes uid (members tm) mvs) (zip tms mvss))"
      "c = reassignments ?st @ concat (map (\<lambda>(tm, mvs). trace_records (team_name tm) (members tm) mvs)
                             (zip tms mvss))"
      "\<forall>n < length tms.
           moves_under_capacity (members (tms ! n)) (mvss ! n)
           \<and> (\<forall>k < length (members (tms ! n)).
                 tasks (members (a ! n) ! k)
                   = tasks (members (tms ! n) ! k) @ received (mvss ! n) k)"
    by blast
  show ?case
  proof (intro exI [of _ "mvs # mvss"] conjI allI impI)
    show "length (mvs # mvss) = length (tm # tms)" using m(1) by simp
    show "ws' = ws @ concat (map (\<lambda>(tm, mvs). trace_writes uid (members tm) mvs)
                               (zip (tm # tms) (mvs # mvss)))"
      using e m(2) t by (simp add: traced_def)
    show "rs' = rs @ concat (map (\<lambda>(tm, mvs). trace_records (team_name tm) (members tm) mvs)
                             (zip (tm # tms) (mvs # mvss)))"
      using e m(3) t by (simp add: traced_def)
  next
    fix n assume n: "n < length (tm # tms)"
    show "moves_under_capacity (members ((tm # tms) ! n)) ((mvs # mvss) ! n)"
      using n m(4) t by (cases n) (simp_all add: traced_def)
    fix k assume k: "k < length (members ((tm # tms) ! n))"
    show "tasks (members (tms' ! n) ! k)
            = tasks (members ((tm # tms) ! n) ! k) @ received ((mvs # mvss) ! n) k"
      using n k m(4) t e by (cases n) (simp_all add: traced_def)
  qed
qed

lemma scenarioF_sweep:
  "snd (sweep ''u1'' [\<lparr>team_id = ''T'', team_name = ''Core'', members = scenarioF_members\<rparr>] [] [])
     = (move_writes ''u1'' (scenarioF_members ! 0) (scenarioF_members ! 2)
          (mk_task ''a'' LOW PENDING ''m1''),
        [move_record ''Core'' (scenarioF_members ! 0) (scenarioF_members ! 2)
          (mk_task ''a'' LOW PENDING ''m1'')])"
  by code_simp

text \<open>
  C3. Within a step of the loop, the target of a move is the first available
  member whose task array, in the store as it is at that moment, is shorter than
  its capacity; the move appends the task to that array in the store that the
  next iterations read, and when no such member is left the loop ends. Over a
  whole sweep, from any snapshot, the writes and the reassignment entries are
  those of a sequence of moves for each team, made in order, in which the target
  of every move has, at that move, a running count (its open-task count in the
  snapshot plus the moves of the sweep that already went to it) under its
  capacity; the task arrays the sweep leaves in memory are the snapshot's with the
  tasks of those moves appended, so that a member whose array has changed holds
  at most its capacity.
\<close>

theorem sweep_target_under_capacity:
  "(\<forall>j. find_target (mem st) avail = Some j \<longrightarrow>
        j \<in> set avail \<and> int (length (tasks (mem st ! j))) < capacity (mem st ! j)
        \<and> reassign_loop uid tn i avail (t # ts) st
            = reassign_loop uid tn i avail ts (move_task uid tn i j t st)
        \<and> (j < length (mem st) \<longrightarrow>
             tasks (mem (move_task uid tn i j t st) ! j) = tasks (mem st ! j) @ [t]
             \<and> (\<forall>k. k \<noteq> j \<longrightarrow> mem (move_task uid tn i j t st) ! k = mem st ! k)))
   \<and> (find_target (mem st) avail = None \<longrightarrow> reassign_loop uid tn i avail (t # ts) st = st)
   \<and> (\<forall>tms' ws' rs'. sweep uid tms ws rs = (tms', ws', rs') \<longrightarrow>
        length tms' = length tms
        \<and> (\<exists>mvss. length mvss = length tms
              \<and> ws' = ws @ concat (map (\<lambda>(tm, mvs). trace_writes uid (members tm) mvs)
                                     (zip tms mvss))
              \<and> rs' = rs @ concat (map (\<lambda>(tm, mvs). trace_records (team_name tm) (members tm) mvs)
                                     (zip tms mvss))
              \<and> (\<forall>n < length tms.
                    (\<forall>m < length (mvss ! n).
                        fst (mvss ! n ! m) < length (members (tms ! n))
                        \<and> snd (snd (mvss ! n ! m)) < length (members (tms ! n))
                        \<and> int (running_count (members (tms ! n)) (take m (mvss ! n))
                                 (snd (snd (mvss ! n ! m))))
                             < capacity (members (tms ! n) ! snd (snd (mvss ! n ! m))))
                    \<and> (\<forall>k < length (members (tms ! n)).
                          tasks (members (tms' ! n) ! k)
                            = tasks (members (tms ! n) ! k) @ received (mvss ! n) k)))
        \<and> (\<forall>n < length tms.
              length (members (tms' ! n)) = length (members (tms ! n))
              \<and> (\<forall>k < length (members (tms ! n)).
                    capacity (members (tms' ! n) ! k) = capacity (members (tms ! n) ! k)
                    \<and> (tasks (members (tms' ! n) ! k) \<noteq> tasks (members (tms ! n) ! k)
                        \<longrightarrow> int (length (tasks (members (tms' ! n) ! k)))
                              \<le> capacity (members (tms ! n) ! k)))))"
proof (intro conjI allI impI)
  fix j assume f: "find_target (mem st) avail = Some j"
  from find_target_Some [OF f]
  show "j \<in> set avail" "int (length (tasks (mem st ! j))) < capacity (mem st ! j)" by simp_all
  from f show "reassign_loop uid tn i avail (t # ts) st
            = reassign_loop uid tn i avail ts (move_task uid tn i j t st)" by simp
  assume "j < length (mem st)"
  then show "tasks (mem (move_task uid tn i j t st) ! j) = tasks (mem st ! j) @ [t]"
    by (simp add: mem_move_task)
  fix k assume "k \<noteq> j"
  then show "mem (move_task uid tn i j t st) ! k = mem st ! k"
    by (simp add: mem_move_task)
next
  assume "find_target (mem st) avail = None"
  then show "reassign_loop uid tn i avail (t # ts) st = st" by simp
next
  fix tms' ws' rs' assume s: "sweep uid tms ws rs = (tms', ws', rs')"
  show "length tms' = length tms" using s by (rule sweep_length)
  show "\<exists>mvss. length mvss = length tms
              \<and> ws' = ws @ concat (map (\<lambda>(tm, mvs). trace_writes uid (members tm) mvs)
                                     (zip tms mvss))
              \<and> rs' = rs @ concat (map (\<lambda>(tm, mvs). trace_records (team_name tm) (members tm) mvs)
                                     (zip tms mvss))
              \<and> (\<forall>n < length tms.
                    (\<forall>m < length (mvss ! n).
                        fst (mvss ! n ! m) < length (members (tms ! n))
                        \<and> snd (snd (mvss ! n ! m)) < length (members (tms ! n))
                        \<and> int (running_count (members (tms ! n)) (take m (mvss ! n))
                                 (snd (snd (mvss ! n ! m))))
                             < capacity (members (tms ! n) ! snd (snd (mvss ! n ! m))))
                    \<and> (\<forall>k < length (members (tms ! n)).
                          tasks (members (tms' ! n) ! k)
                            = tasks (members (tms ! n) ! k) @ received (mvss ! n) k))"
    using sweep_traced [OF s] unfolding moves_under_capacity_def .
next
  fix tms' ws' rs' n assume s: "sweep uid tms ws rs = (tms', ws', rs')" and n: "n < length tms"
  note gn = sweep_nth_grows [OF s n]
  then show "length (members (tms' ! n)) = length (members (tms ! n))"
    by (simp add: grows_def)
  fix k assume k: "k < length (members (tms ! n))"
  with gn show "capacity (members (tms' ! n) ! k) = capacity (members (tms ! n) ! k)"
    by (simp add: grows_def)
  assume "tasks (members (tms' ! n) ! k) \<noteq> tasks (members (tms ! n) ! k)"
  with gn k show "int (length (tasks (members (tms' ! n) ! k))) \<le> capacity (members (tms ! n) ! k)"
    by (simp add: grows_def)
qed

theorem sweep_target_under_capacity_witness:
  "find_target scenarioF_members [2] = Some 2
   \<and> int (length (tasks (scenarioF_members ! 2))) < capacity (scenarioF_members ! 2)
   \<and> snd (sweep ''u1'' [\<lparr>team_id = ''T'', team_name = ''Core'', members = scenarioF_members\<rparr>] [] [])
       = (move_writes ''u1'' (scenarioF_members ! 0) (scenarioF_members ! 2)
            (mk_task ''a'' LOW PENDING ''m1''),
          [move_record ''Core'' (scenarioF_members ! 0) (scenarioF_members ! 2)
            (mk_task ''a'' LOW PENDING ''m1'')])
   \<and> (\<exists>mvs. move_writes ''u1'' (scenarioF_members ! 0) (scenarioF_members ! 2)
                (mk_task ''a'' LOW PENDING ''m1'')
              = trace_writes ''u1'' scenarioF_members mvs
            \<and> moves_under_capacity scenarioF_members mvs)"
proof -
  let ?st = "\<lparr>mem = scenarioF_members, writes = [], reassignments = []\<rparr>"
  let ?tm = "\<lparr>team_id = ''T'', team_name = ''Core'', members = scenarioF_members\<rparr>"
  let ?a = "mk_task ''a'' LOW PENDING ''m1''"
  note T = sweep_target_under_capacity [of ?st "[2]" "''u1''" "''Core''" 0 ?a "[]" "[?tm]" "[]" "[]"]
  have f: "find_target (mem ?st) [2] = Some 2"
    by (simp add: find_target_def scenarioF_members_def)
  from T [THEN conjunct1, rule_format, OF f]
  have a: "int (length (tasks (mem ?st ! 2))) < capacity (mem ?st ! 2)" by simp
  obtain tms' where s: "sweep ''u1'' [?tm] [] [] =
      (tms', move_writes ''u1'' (scenarioF_members ! 0) (scenarioF_members ! 2) ?a,
       [move_record ''Core'' (scenarioF_members ! 0) (scenarioF_members ! 2) ?a])"
    using scenarioF_sweep by (cases "sweep ''u1'' [?tm] [] []") auto
  from T [THEN conjunct2, THEN conjunct2, rule_format, OF s, THEN conjunct2, THEN conjunct1]
  obtain mvss where m: "length mvss = length [?tm]"
    "move_writes ''u1'' (scenarioF_members ! 0) (scenarioF_members ! 2) ?a
       = [] @ concat (map (\<lambda>(tm, mvs). trace_writes ''u1'' (members tm) mvs) (zip [?tm] mvss))"
    "\<forall>n < length [?tm].
        (\<forall>m < length (mvss ! n).
            fst (mvss ! n ! m) < length (members ([?tm] ! n))
            \<and> snd (snd (mvss ! n ! m)) < length (members ([?tm] ! n))
            \<and> int (running_count (members ([?tm] ! n)) (take m (mvss ! n))
                     (snd (snd (mvss ! n ! m))))
                 < capacity (members ([?tm] ! n) ! snd (snd (mvss ! n ! m))))
        \<and> (\<forall>k < length (members ([?tm] ! n)).
              tasks (members (tms' ! n) ! k)
                = tasks (members ([?tm] ! n) ! k) @ received (mvss ! n) k)"
    by blast
  from m(1) obtain mvs where e: "mvss = [mvs]"
    by (cases mvss) simp_all
  from m(2) e have w: "move_writes ''u1'' (scenarioF_members ! 0) (scenarioF_members ! 2) ?a
      = trace_writes ''u1'' scenarioF_members mvs" by simp
  from m(3) e have u: "moves_under_capacity scenarioF_members mvs"
    by (simp add: moves_under_capacity_def)
  from w u have x: "\<exists>mvs. move_writes ''u1'' (scenarioF_members ! 0) (scenarioF_members ! 2) ?a
              = trace_writes ''u1'' scenarioF_members mvs
            \<and> moves_under_capacity scenarioF_members mvs" by blast
  from f a scenarioF_sweep x show ?thesis by simp
qed

end
